theory Spec2Isabelle
  imports Main "HOL-Library.AList" "HOL-Library.Sublist"
begin

section \<open>Data model of the TransactionManager\<close>

text \<open>
  The embedding follows \<^verbatim>\<open>class TransactionManager\<close> of the transaction history module.
  A JavaScript value used as a transaction hash is \<^verbatim>\<open>undefined\<close>, \<^verbatim>\<open>null\<close> or a string; the
  three are different keys of a \<^verbatim>\<open>Map\<close>.
\<close>

datatype js_hash = HUndefined | HNull | HString string

text \<open>
  \<^verbatim>\<open>metadata.blockTimestamp\<close> as the comparator sees it: missing (\<^verbatim>\<open>undefined\<close> or \<^verbatim>\<open>null\<close>),
  present but \<^verbatim>\<open>new Date(_).getTime()\<close> is \<^verbatim>\<open>NaN\<close>, or present with the milliseconds
  \<^verbatim>\<open>new Date(_)\<close> stands for.
\<close>

datatype block_timestamp = TsMissing | TsInvalid | TsMillis int

text \<open>
  A transfer as the remote side returns it: its transaction hash, the block timestamp of
  its metadata, and the fields the aggregator only passes on.
\<close>

record transfer =
  hash :: js_hash
  blockTimestamp :: block_timestamp
  from_addr :: string
  to_addr :: string
  asset_value :: string

text \<open>The details of a signed transaction, of which the aggregator reads the hash.\<close>

record signed_transaction =
  st_hash :: js_hash
  st_input :: string

text \<open>
  \<^verbatim>\<open>_nextIncomingPage\<close> and \<^verbatim>\<open>_nextOutgoingPage\<close> have type \<^verbatim>\<open>?string\<close>: \<^verbatim>\<open>undefined\<close> before the
  first fetch, \<^verbatim>\<open>null\<close> when the feed has no more pages, a page key otherwise.
\<close>

datatype cursor = Undefined | Null | Token string

datatype error =
    InvalidArgument string
  | FetchError string
  | MalformedData string
  | RemoteError string

datatype outcome = Returned | Thrown error

text \<open>
  \<^verbatim>\<open>toFullTransaction\<close> is an external formatter. A Full Transaction is represented by the
  argument object it is built from.
\<close>

record full_transaction =
  ft_walletAddress :: string
  ft_tandapayContractAddress :: "string option"
  ft_transfers :: "transfer list"
  ft_signedTransaction :: "signed_transaction option"
  ft_network :: string

text \<open>
  The fields of the class. The type parameter is the representation of the array held in
  \<^verbatim>\<open>_getOrderedTransactionsCache\<close>: its contents, or its address in a store of objects.
  \<^verbatim>\<open>None\<close> stands for both \<^verbatim>\<open>undefined\<close> and \<^verbatim>\<open>null\<close> there (neither is an array).
  \<^verbatim>\<open>pageSize\<close> holds \<^verbatim>\<open>_pageSize\<close>, twice the constructor's parameter. The two maps are
  association lists in insertion order, as a JavaScript \<^verbatim>\<open>Map\<close> is.
\<close>

record 'c manager =
  network :: string
  walletAddress :: string
  tandapayContractAddress :: "string option"
  transactionQueue :: "transfer list"
  nextIncomingPage :: cursor
  nextOutgoingPage :: cursor
  pageSize :: int
  pagesLoaded :: int
  inorderTransactionHashes :: "js_hash list"
  allTransactions :: "(js_hash \<times> transfer list) list"
  allSignedTransactions :: "(js_hash \<times> signed_transaction) list"
  getOrderedTransactionsCache :: "'c option"
  lock :: bool

type_synonym vmanager = "full_transaction list manager"

subsection \<open>The remote collaborators\<close>

text \<open>
  The parameters of a page request that vary: the wallet address as \<^verbatim>\<open>toAddress\<close> (incoming
  feed) or \<^verbatim>\<open>fromAddress\<close> (outgoing feed), the page key (\<^verbatim>\<open>None\<close> is \<^verbatim>\<open>undefined\<close>) and
  \<^verbatim>\<open>maxCount\<close>. In a response, the page key \<^verbatim>\<open>None\<close> is \<^verbatim>\<open>null\<close>: no more pages.
\<close>

record request =
  req_toAddress :: "string option"
  req_fromAddress :: "string option"
  req_pageKey :: "string option"
  req_maxCount :: int

record fetch_response =
  transfers :: "transfer list"
  pageKey :: "string option"

text \<open>
  What the three remote functions answer during one call of \<^verbatim>\<open>loadMore\<close>. A promise that
  rejects is \<^verbatim>\<open>Inl\<close> of the error's message. \<^verbatim>\<open>Promise.all\<close> rejects with the rejection that
  comes first in time; \<^verbatim>\<open>outgoingRejectsFirst\<close> says which one that is when both reject.
\<close>

record env =
  isAlchemyAvailableForNetwork :: "string + bool"
  getAssetTransfersForNetwork :: "request \<Rightarrow> string + fetch_response"
  outgoingRejectsFirst :: bool
  getBatchTransactionsByHashForNetwork :: "js_hash list \<Rightarrow> string + signed_transaction option list"

datatype call =
    CheckAvailable
  | FetchPage request
  | FetchBatch "js_hash list"

section \<open>The constructor\<close>

text \<open>The fields as the constructor leaves them when its checks pass.\<close>

definition initial :: "string \<Rightarrow> string \<Rightarrow> string option \<Rightarrow> int \<Rightarrow> 'c manager" where
  "initial net wallet contract pSize =
     \<lparr> network = net,
       walletAddress = wallet,
       tandapayContractAddress = contract,
       transactionQueue = [],
       nextIncomingPage = Undefined,
       nextOutgoingPage = Undefined,
       pageSize = pSize * 2,
       pagesLoaded = 0,
       inorderTransactionHashes = [],
       allTransactions = [],
       allSignedTransactions = [],
       getOrderedTransactionsCache = None,
       lock = False \<rparr>"

text \<open>
  The constructor. \<^verbatim>\<open>ethers.utils.isAddress\<close> is a parameter. A page size that is not given
  is 10, and a contract address that is falsy (not given, \<^verbatim>\<open>null\<close> or the empty string) is
  stored as \<^verbatim>\<open>null\<close>.
\<close>

definition new_manager ::
  "(string \<Rightarrow> bool) \<Rightarrow> string \<Rightarrow> string \<Rightarrow> string option \<Rightarrow> int option
     \<Rightarrow> error + 'c manager" where
  "new_manager isAddress net wallet contract pSize =
     (if net = [] \<or> wallet = [] then
        Inl (InvalidArgument ''Invalid parameters provided to TransactionManager constructor'')
      else if \<not> isAddress wallet then
        Inl (InvalidArgument ''Invalid wallet address provided'')
      else Inr (initial net wallet (if contract = Some [] then None else contract)
                  (case pSize of None \<Rightarrow> 10 | Some n \<Rightarrow> n)))"

section \<open>The comparator and the queue\<close>

definition transactionSortKey :: "transfer \<Rightarrow> transfer \<Rightarrow> error + int" where
  "transactionSortKey tx1 tx2 =
     (if blockTimestamp tx1 = TsMissing then
        Inl (MalformedData ''Transaction metadata blockTimestamp is missing for tx1'')
      else if blockTimestamp tx2 = TsMissing then
        Inl (MalformedData ''Transaction metadata blockTimestamp is missing for tx2'')
      else
        (case (blockTimestamp tx1, blockTimestamp tx2) of
           (TsMillis date1, TsMillis date2) \<Rightarrow>
             Inr (if date1 > date2 then - 1 else if date1 < date2 then 1 else 0)
         | _ \<Rightarrow> Inl (MalformedData ''Invalid date in transaction metadata blockTimestamp'')))"

text \<open>
  Modelled from the spec: the \<^verbatim>\<open>PriorityQueue\<close> of the datastructures-js package, which is
  not part of the repository. The spec describes it as a container ordered by the
  comparator, drained in comparator order with the insertion order kept among equal
  timestamps. The queue is the list of its elements in that order. \<^verbatim>\<open>enqueue\<close> calls the
  comparator on the new element and elements already there, so it throws what the
  comparator throws; into an empty queue it compares nothing. \<^verbatim>\<open>toArray\<close> is a snapshot
  and leaves the queue as it is.
\<close>

fun enqueue :: "transfer \<Rightarrow> transfer list \<Rightarrow> error + transfer list" where
  "enqueue tx [] = Inr [tx]"
| "enqueue tx (y # ys) =
     (case transactionSortKey tx y of
        Inl e \<Rightarrow> Inl e
      | Inr c \<Rightarrow>
          if c < 0 then Inr (tx # y # ys)
          else (case enqueue tx ys of Inl e \<Rightarrow> Inl e | Inr zs \<Rightarrow> Inr (y # zs)))"

definition toArray :: "transfer list \<Rightarrow> transfer list" where
  "toArray q = q"

text \<open>
  \<^verbatim>\<open>incoming.forEach(tx => enqueue(tx))\<close> followed by the same for \<^verbatim>\<open>outgoing\<close>: the
  transfers are enqueued in turn; an exception ends the loop, and the queue keeps what
  was enqueued before it.
\<close>

fun enqueueAll :: "transfer list \<Rightarrow> transfer list \<Rightarrow> error option \<times> transfer list" where
  "enqueueAll [] q = (None, q)"
| "enqueueAll (tx # txs) q =
     (case enqueue tx q of
        Inl e \<Rightarrow> (Some e, q)
      | Inr q' \<Rightarrow> enqueueAll txs q')"

section \<open>loadMore\<close>

definition isAtLastPage :: "'c manager \<Rightarrow> bool" where
  "isAtLastPage m \<longleftrightarrow> nextIncomingPage m = Null \<and> nextOutgoingPage m = Null"

definition dropGetOrderedTransactionsCache :: "'c manager \<Rightarrow> 'c manager" where
  "dropGetOrderedTransactionsCache m =
     m\<lparr> allTransactions := [],
        inorderTransactionHashes := [],
        getOrderedTransactionsCache := None \<rparr>"

text \<open>\<^verbatim>\<open>hash !== null && hash !== undefined && hash !== ''\<close>\<close>

definition nonEmptyHash :: "js_hash \<Rightarrow> bool" where
  "nonEmptyHash h \<longleftrightarrow> h \<noteq> HNull \<and> h \<noteq> HUndefined \<and> h \<noteq> HString []"

text \<open>\<^verbatim>\<open>tx.hash ?? ''\<close>\<close>

definition hashOrEmpty :: "js_hash \<Rightarrow> js_hash" where
  "hashOrEmpty h = (case h of HString s \<Rightarrow> HString s | _ \<Rightarrow> HString [])"

text \<open>\<^verbatim>\<open>detail && detail.hash\<close> guards the store of one detail of the batch.\<close>

definition storeDetail ::
  "signed_transaction option \<Rightarrow> (js_hash \<times> signed_transaction) list
     \<Rightarrow> (js_hash \<times> signed_transaction) list" where
  "storeDetail detail signed =
     (case detail of
        None \<Rightarrow> signed
      | Some d \<Rightarrow> if nonEmptyHash (st_hash d) then AList.update (st_hash d) d signed else signed)"

definition populateSignedTransactions ::
  "env \<Rightarrow> js_hash list \<Rightarrow> (js_hash \<times> signed_transaction) list
     \<Rightarrow> outcome \<times> (js_hash \<times> signed_transaction) list \<times> call list" where
  "populateSignedTransactions e inputHashes signed =
     (let hashes = filter nonEmptyHash inputHashes in
      if hashes = [] then (Returned, signed, [])
      else
        let needsDetails = filter (\<lambda>h. map_of signed h = None) hashes in
        (case getBatchTransactionsByHashForNetwork e needsDetails of
           Inl msg \<Rightarrow> (Thrown (RemoteError msg), signed, [FetchBatch needsDetails])
         | Inr details \<Rightarrow> (Returned, fold storeDetail details signed, [FetchBatch needsDetails])))"

text \<open>\<^verbatim>\<open>this._nextIncomingPage || undefined\<close>: a falsy cursor is passed as \<^verbatim>\<open>undefined\<close>.\<close>

definition pageKeyArg :: "cursor \<Rightarrow> string option" where
  "pageKeyArg c = (case c of Token t \<Rightarrow> if t = [] then None else Some t | _ \<Rightarrow> None)"

definition incomingRequest :: "'c manager \<Rightarrow> request" where
  "incomingRequest m =
     \<lparr> req_toAddress = Some (walletAddress m), req_fromAddress = None,
       req_pageKey = pageKeyArg (nextIncomingPage m), req_maxCount = pageSize m \<rparr>"

definition outgoingRequest :: "'c manager \<Rightarrow> request" where
  "outgoingRequest m =
     \<lparr> req_toAddress = None, req_fromAddress = Some (walletAddress m),
       req_pageKey = pageKeyArg (nextOutgoingPage m), req_maxCount = pageSize m \<rparr>"

text \<open>One of the two promises: the fetch when the cursor is not \<^verbatim>\<open>null\<close>, an empty page otherwise.\<close>

definition pagePromise :: "env \<Rightarrow> cursor \<Rightarrow> request \<Rightarrow> (string + fetch_response) \<times> call list" where
  "pagePromise e c req =
     (if c \<noteq> Null then (getAssetTransfersForNetwork e req, [FetchPage req])
      else (Inr \<lparr> transfers = [], pageKey = None \<rparr>, []))"

definition promiseAll ::
  "env \<Rightarrow> string + fetch_response \<Rightarrow> string + fetch_response
     \<Rightarrow> string + fetch_response \<times> fetch_response" where
  "promiseAll e a b =
     (case (a, b) of
        (Inr x, Inr y) \<Rightarrow> Inr (x, y)
      | (Inl msg, Inr _) \<Rightarrow> Inl msg
      | (Inr _, Inl msg) \<Rightarrow> Inl msg
      | (Inl msg1, Inl msg2) \<Rightarrow> Inl (if outgoingRejectsFirst e then msg2 else msg1))"

definition cursorOf :: "string option \<Rightarrow> cursor" where
  "cursorOf k = (case k of None \<Rightarrow> Null | Some t \<Rightarrow> Token t)"

text \<open>The part of \<^verbatim>\<open>loadMore\<close> after the \<^verbatim>\<open>try\<close> block, which has no handler of its own.\<close>

definition mergeFetched ::
  "env \<Rightarrow> 'c manager \<Rightarrow> transfer list \<Rightarrow> transfer list \<Rightarrow> outcome \<times> 'c manager \<times> call list" where
  "mergeFetched e m incoming outgoing =
     (case enqueueAll (incoming @ outgoing) (transactionQueue m) of
        (Some err, q) \<Rightarrow> (Thrown err, m\<lparr>transactionQueue := q\<rparr>, [])
      | (None, q) \<Rightarrow>
          let allTransfers = incoming @ outgoing;
              m1 = m\<lparr>transactionQueue := q\<rparr>
          in
          (case populateSignedTransactions e
                  (map (\<lambda>tx. hashOrEmpty (hash tx)) (filter (\<lambda>tx. nonEmptyHash (hash tx)) allTransfers))
                  (allSignedTransactions m1) of
             (Thrown err, signed, cs) \<Rightarrow> (Thrown err, m1\<lparr>allSignedTransactions := signed\<rparr>, cs)
           | (Returned, signed, cs) \<Rightarrow>
               (Returned,
                (dropGetOrderedTransactionsCache
                   (m1\<lparr>allSignedTransactions := signed, pagesLoaded := pagesLoaded m1 + 1\<rparr>))
                  \<lparr>lock := False\<rparr>,
                cs)))"

definition loadMore :: "env \<Rightarrow> 'c manager \<Rightarrow> outcome \<times> 'c manager \<times> call list" where
  "loadMore e m =
     (if lock m then (Returned, m, [])
      else
        let m1 = m\<lparr>lock := True\<rparr> in
        (case isAlchemyAvailableForNetwork e of
           Inl msg \<Rightarrow> (Thrown (RemoteError msg), m1, [CheckAvailable])
         | Inr available \<Rightarrow>
             if \<not> available then (Returned, m1\<lparr>lock := False\<rparr>, [CheckAvailable])
             else
               let (incomingPromise, c1) = pagePromise e (nextIncomingPage m1) (incomingRequest m1);
                   (outgoingPromise, c2) = pagePromise e (nextOutgoingPage m1) (outgoingRequest m1)
               in
               (case promiseAll e incomingPromise outgoingPromise of
                  Inl msg \<Rightarrow>
                    (Thrown (FetchError (''Failed to fetch transactions: '' @ msg)),
                     m1\<lparr>lock := False\<rparr>, CheckAvailable # c1 @ c2)
                | Inr (incomingResponse, outgoingResponse) \<Rightarrow>
                    let m2 = m1\<lparr> nextIncomingPage := cursorOf (pageKey incomingResponse),
                                 nextOutgoingPage := cursorOf (pageKey outgoingResponse) \<rparr>
                    in
                    (case mergeFetched e m2 (transfers incomingResponse) (transfers outgoingResponse) of
                       (r, m3, c3) \<Rightarrow> (r, m3, CheckAvailable # c1 @ c2 @ c3)))))"

section \<open>getOrderedTransactions\<close>

text \<open>One round of the loop over the queue's snapshot.\<close>

definition groupTransfer ::
  "transfer \<Rightarrow> (js_hash \<times> transfer list) list \<times> js_hash list
     \<Rightarrow> (js_hash \<times> transfer list) list \<times> js_hash list" where
  "groupTransfer tx acc =
     (case acc of (allTx, hashes) \<Rightarrow>
        (case map_of allTx (hash tx) of
           None \<Rightarrow> (AList.update (hash tx) [tx] allTx, hashes @ [hash tx])
         | Some g \<Rightarrow> (AList.update (hash tx) (g @ [tx]) allTx, hashes)))"

definition maxSafeIndex :: "'c manager \<Rightarrow> int" where
  "maxSafeIndex m =
     (if isAtLastPage m then int (length (inorderTransactionHashes m))
      else min (pagesLoaded m * (pageSize m div 2))
               (max (int (length (inorderTransactionHashes m)) - 1) 0))"

text \<open>
  The body of the last loop for one hash: \<^verbatim>\<open>None\<close> is the \<^verbatim>\<open>continue\<close> for a missing or
  empty group.
\<close>

definition buildFullTransaction :: "'c manager \<Rightarrow> js_hash \<Rightarrow> full_transaction option" where
  "buildFullTransaction m h =
     (case map_of (allTransactions m) h of
        None \<Rightarrow> None
      | Some transactionData \<Rightarrow>
          if transactionData = [] then None
          else Some \<lparr> ft_walletAddress = walletAddress m,
                      ft_tandapayContractAddress = tandapayContractAddress m,
                      ft_transfers = transactionData,
                      ft_signedTransaction = map_of (allSignedTransactions m) h,
                      ft_network = (if network m = ''custom'' then ''sepolia'' else network m) \<rparr>)"

text \<open>
  The computation below the cache test: the grouping loop, the safe index and the loop
  \<^verbatim>\<open>for (i = 0; i < maxSafeIndex; i += 1)\<close>, which reads the first \<^verbatim>\<open>maxSafeIndex\<close> hashes
  (the index never exceeds the length of the list).
\<close>

definition orderedTransactions :: "'c manager \<Rightarrow> full_transaction list \<times> 'c manager" where
  "orderedTransactions m =
     (let transactionsArray = toArray (transactionQueue m);
          (allTx, hashes) = fold groupTransfer transactionsArray
                              (allTransactions m, inorderTransactionHashes m);
          m1 = m\<lparr>allTransactions := allTx, inorderTransactionHashes := hashes\<rparr>;
          res = List.map_filter (buildFullTransaction m1)
                  (take (nat (maxSafeIndex m1)) (inorderTransactionHashes m1))
      in (res, m1))"

definition getOrderedTransactions :: "vmanager \<Rightarrow> full_transaction list \<times> vmanager" where
  "getOrderedTransactions m =
     (case getOrderedTransactionsCache m of
        Some cached \<Rightarrow> (cached, m)
      | None \<Rightarrow>
          (case orderedTransactions m of
             (res, m1) \<Rightarrow> (res, m1\<lparr>getOrderedTransactionsCache := Some res\<rparr>)))"

text \<open>The hash a Full Transaction stands for: the hash of the transfers it groups.\<close>

definition ft_hash :: "full_transaction \<Rightarrow> js_hash option" where
  "ft_hash ft = (case ft_transfers ft of [] \<Rightarrow> None | tx # _ \<Rightarrow> Some (hash tx))"

section \<open>Sequences of calls\<close>

text \<open>
  A caller's history: calls of \<^verbatim>\<open>loadMore\<close>, each with the answers of the remote side, and
  calls of \<^verbatim>\<open>getOrderedTransactions\<close>. \<^verbatim>\<open>run\<close> gives the state after a history in which every
  \<^verbatim>\<open>loadMore\<close> returned, and \<^verbatim>\<open>None\<close> when one of them threw.
\<close>

datatype op = LoadMore env | GetOrderedTransactions

fun run :: "op list \<Rightarrow> vmanager \<Rightarrow> vmanager option" where
  "run [] m = Some m"
| "run (LoadMore e # ops) m =
     (case loadMore e m of
        (Returned, m1, _) \<Rightarrow> run ops m1
      | (Thrown _, _, _) \<Rightarrow> None)"
| "run (GetOrderedTransactions # ops) m = run ops (snd (getOrderedTransactions m))"

subsection \<open>Invariants of the reachable states\<close>

definition validTimestamp :: "transfer \<Rightarrow> bool" where
  "validTimestamp tx = (case blockTimestamp tx of TsMillis _ \<Rightarrow> True | _ \<Rightarrow> False)"

definition millis :: "transfer \<Rightarrow> int" where
  "millis tx = (case blockTimestamp tx of TsMillis d \<Rightarrow> d | _ \<Rightarrow> 0)"

text \<open>The comparator puts \<open>a\<close> before \<open>b\<close> or ranks them equal.\<close>

definition notAfter :: "transfer \<Rightarrow> transfer \<Rightarrow> bool" where
  "notAfter a b = (case transactionSortKey a b of Inr c \<Rightarrow> c \<le> 0 | Inl _ \<Rightarrow> False)"

definition queueOrdered :: "transfer list \<Rightarrow> bool" where
  "queueOrdered q \<longleftrightarrow>
     length q \<le> 1 \<or> (list_all validTimestamp q \<and> sorted_wrt (\<lambda>a b. millis b \<le> millis a) q)"

text \<open>
  The grouping maps are either empty with no cache (after the constructor and after every
  merge), or they and the cache are what \<^verbatim>\<open>getOrderedTransactions\<close> computes from the queue.
\<close>

definition cacheCoherent :: "vmanager \<Rightarrow> bool" where
  "cacheCoherent m =
     (case getOrderedTransactionsCache m of
        None \<Rightarrow> allTransactions m = [] \<and> inorderTransactionHashes m = []
      | Some res \<Rightarrow> getOrderedTransactions (dropGetOrderedTransactionsCache m) = (res, m))"

definition invariant :: "vmanager \<Rightarrow> bool" where
  "invariant m \<longleftrightarrow>
     \<not> lock m \<and> queueOrdered (transactionQueue m) \<and> cacheCoherent m \<and>
     list_all nonEmptyHash (map fst (allSignedTransactions m))"

text \<open>
  What the grouping loop has built after a prefix \<open>q\<close> of the snapshot: one key per hash
  in order of first sight, each group the transfers of that hash in the snapshot's order.
\<close>

definition groupedFrom :: "transfer list \<Rightarrow> (js_hash \<times> transfer list) list \<times> js_hash list \<Rightarrow> bool" where
  "groupedFrom q acc \<longleftrightarrow>
     map fst (fst acc) = snd acc \<and> distinct (snd acc) \<and> set (snd acc) = hash ` set q \<and>
     list_all (\<lambda>h. map_of (fst acc) h = Some (filter (\<lambda>tx. hash tx = h) q)) (snd acc) \<and>
     subseq (map (\<lambda>h. hd (filter (\<lambda>tx. hash tx = h) q)) (snd acc)) q"

section \<open>Arrays and objects in a store\<close>

text \<open>
  For what a caller can do with a returned array, arrays and Full Transaction objects get
  addresses: an array is a list of object addresses, and \<^verbatim>\<open>[...a]\<close> is a new array with the
  same element addresses.
\<close>

record store =
  objects :: "full_transaction list"
  arrays :: "nat list list"

type_synonym rmanager = "nat manager"

definition newObject :: "full_transaction \<Rightarrow> store \<Rightarrow> nat \<times> store" where
  "newObject v st = (length (objects st), st\<lparr>objects := objects st @ [v]\<rparr>)"

fun newObjects :: "full_transaction list \<Rightarrow> store \<Rightarrow> nat list \<times> store" where
  "newObjects [] st = ([], st)"
| "newObjects (v # vs) st =
     (case newObject v st of (r, st1) \<Rightarrow>
        (case newObjects vs st1 of (rs, st2) \<Rightarrow> (r # rs, st2)))"

definition newArray :: "nat list \<Rightarrow> store \<Rightarrow> nat \<times> store" where
  "newArray elems st = (length (arrays st), st\<lparr>arrays := arrays st @ [elems]\<rparr>)"

definition elements :: "store \<Rightarrow> nat \<Rightarrow> nat list" where
  "elements st a = (if a < length (arrays st) then arrays st ! a else [])"

text \<open>The objects an array holds, by value: what a deep comparison of two arrays compares.\<close>

definition contents :: "store \<Rightarrow> nat \<Rightarrow> full_transaction list" where
  "contents st a = map (\<lambda>r. objects st ! r) (elements st a)"

text \<open>
  \<^verbatim>\<open>getOrderedTransactions\<close> with the addresses written out: the cached branch returns
  \<^verbatim>\<open>[...cache]\<close>; the other builds the objects and the array \<^verbatim>\<open>res\<close>, stores \<^verbatim>\<open>[...res]\<close> as the
  cache and returns \<^verbatim>\<open>res\<close>.
\<close>

definition getOrderedTransactions_store :: "rmanager \<Rightarrow> store \<Rightarrow> nat \<times> rmanager \<times> store" where
  "getOrderedTransactions_store m st =
     (case getOrderedTransactionsCache m of
        Some c \<Rightarrow> (case newArray (elements st c) st of (r, st1) \<Rightarrow> (r, m, st1))
      | None \<Rightarrow>
          (case orderedTransactions m of (vals, m1) \<Rightarrow>
             (case newObjects vals st of (refs, st1) \<Rightarrow>
                (case newArray refs st1 of (res, st2) \<Rightarrow>
                   (case newArray (elements st2 res) st2 of (c, st3) \<Rightarrow>
                      (res, m1\<lparr>getOrderedTransactionsCache := Some c\<rparr>, st3))))))"

text \<open>
  What a caller holding an array can do to the store: change the array itself (assign an
  index, push, pop, splice, sort: \<^verbatim>\<open>writeArray\<close> covers any new contents), or assign to the
  fields of an object it reaches through the array (\<^verbatim>\<open>writeObject\<close>).
\<close>

definition writeArray :: "nat \<Rightarrow> nat list \<Rightarrow> store \<Rightarrow> store" where
  "writeArray a elems st = st\<lparr>arrays := (arrays st)[a := elems]\<rparr>"

definition writeObject :: "nat \<Rightarrow> full_transaction \<Rightarrow> store \<Rightarrow> store" where
  "writeObject r v st = st\<lparr>objects := (objects st)[r := v]\<rparr>"

text \<open>The manager of the first sections that a manager with a cache address stands for.\<close>

definition valueManager :: "store \<Rightarrow> rmanager \<Rightarrow> vmanager" where
  "valueManager st m =
     \<lparr> network = network m,
       walletAddress = walletAddress m,
       tandapayContractAddress = tandapayContractAddress m,
       transactionQueue = transactionQueue m,
       nextIncomingPage = nextIncomingPage m,
       nextOutgoingPage = nextOutgoingPage m,
       pageSize = pageSize m,
       pagesLoaded = pagesLoaded m,
       inorderTransactionHashes = inorderTransactionHashes m,
       allTransactions = allTransactions m,
       allSignedTransactions = allSignedTransactions m,
       getOrderedTransactionsCache = map_option (contents st) (getOrderedTransactionsCache m),
       lock = lock m \<rparr>"

text \<open>The cache address, when there is one, is the address of an array of objects of the store.\<close>

definition cacheAllocated :: "store \<Rightarrow> rmanager \<Rightarrow> bool" where
  "cacheAllocated st m =
     (case getOrderedTransactionsCache m of
        None \<Rightarrow> True
      | Some c \<Rightarrow> c < length (arrays st) \<and> list_all (\<lambda>r. r < length (objects st)) (elements st c))"

section \<open>Reading the calls of one loadMore\<close>

text \<open>The page requests among the calls made to the remote side, in the order made.\<close>

fun pageRequests :: "call list \<Rightarrow> request list" where
  "pageRequests [] = []"
| "pageRequests (FetchPage req # cs) = req # pageRequests cs"
| "pageRequests (_ # cs) = pageRequests cs"

text \<open>The hash lists passed to the batch fetch of signed details.\<close>

fun batchRequests :: "call list \<Rightarrow> js_hash list list" where
  "batchRequests [] = []"
| "batchRequests (FetchBatch hs # cs) = hs # batchRequests cs"
| "batchRequests (_ # cs) = batchRequests cs"

text \<open>
  \<^verbatim>\<open>allTransfers\<close>: the transfers of the two responses, incoming first, when both promises
  resolve.
\<close>

definition allTransfers :: "env \<Rightarrow> 'c manager \<Rightarrow> transfer list" where
  "allTransfers e m =
     (case promiseAll e (fst (pagePromise e (nextIncomingPage m) (incomingRequest m)))
                        (fst (pagePromise e (nextOutgoingPage m) (outgoingRequest m))) of
        Inl _ \<Rightarrow> []
      | Inr (incomingResponse, outgoingResponse) \<Rightarrow>
          transfers incomingResponse @ transfers outgoingResponse)"

section \<open>A concrete history\<close>

text \<open>
  Sample answers of the remote side, used to run the definitions: the incoming feed
  returns three transfers and a key for its next page, the outgoing feed returns two
  transfers and no key; one transaction shows up in both feeds and one transfer has an
  empty hash.
\<close>

definition sampleTransfer :: "js_hash \<Rightarrow> int \<Rightarrow> string \<Rightarrow> transfer" where
  "sampleTransfer h t v =
     \<lparr> hash = h, blockTimestamp = TsMillis t, from_addr = ''0xa'', to_addr = ''0xb'',
       asset_value = v \<rparr>"

definition sampleIncoming :: "transfer list" where
  "sampleIncoming =
     [sampleTransfer (HString ''0x01'') 30 ''1'',
      sampleTransfer (HString ''0x02'') 20 ''2'',
      sampleTransfer (HString []) 10 ''3'']"

definition sampleOutgoing :: "transfer list" where
  "sampleOutgoing =
     [sampleTransfer (HString ''0x01'') 30 ''4'',
      sampleTransfer (HString ''0x03'') 25 ''5'']"

definition sampleEnv :: env where
  "sampleEnv =
     \<lparr> isAlchemyAvailableForNetwork = Inr True,
       getAssetTransfersForNetwork =
         (\<lambda>req. if req_toAddress req \<noteq> None
                then Inr \<lparr> transfers = sampleIncoming, pageKey = Some ''next'' \<rparr>
                else Inr \<lparr> transfers = sampleOutgoing, pageKey = None \<rparr>),
       outgoingRejectsFirst = False,
       getBatchTransactionsByHashForNetwork =
         (\<lambda>hs. Inr (map (\<lambda>h. Some \<lparr> st_hash = h, st_input = ''0x'' \<rparr>) hs)) \<rparr>"

text \<open>The same remote side when the incoming feed ends too.\<close>

definition sampleLastEnv :: env where
  "sampleLastEnv =
     sampleEnv\<lparr> getAssetTransfersForNetwork :=
       (\<lambda>req. if req_toAddress req \<noteq> None
              then Inr \<lparr> transfers = [sampleTransfer (HString ''0x04'') 5 ''6''], pageKey = None \<rparr>
              else Inr \<lparr> transfers = [], pageKey = None \<rparr>) \<rparr>"

text \<open>The outgoing fetch rejects while the incoming one resolves.\<close>

definition sampleRejectingEnv :: env where
  "sampleRejectingEnv =
     sampleEnv\<lparr> getAssetTransfersForNetwork :=
       (\<lambda>req. if req_toAddress req \<noteq> None
              then Inr \<lparr> transfers = sampleIncoming, pageKey = Some ''next'' \<rparr>
              else Inl ''timeout'') \<rparr>"

text \<open>The batch fetch of signed details rejects.\<close>

definition sampleBatchRejectingEnv :: env where
  "sampleBatchRejectingEnv =
     sampleEnv\<lparr> getBatchTransactionsByHashForNetwork := (\<lambda>hs. Inl ''rate limit'') \<rparr>"

text \<open>A page holds a transfer without a timestamp behind another transfer.\<close>

definition sampleMalformedEnv :: env where
  "sampleMalformedEnv =
     sampleEnv\<lparr> getAssetTransfersForNetwork :=
       (\<lambda>req. if req_toAddress req \<noteq> None
              then Inr \<lparr> transfers =
                     [sampleTransfer (HString ''0x01'') 30 ''1'',
                      (sampleTransfer (HString ''0x02'') 20 ''2'')\<lparr>blockTimestamp := TsMissing\<rparr>],
                   pageKey = None \<rparr>
              else Inr \<lparr> transfers = [], pageKey = None \<rparr>) \<rparr>"

text \<open>
  A last page of the incoming feed whose transfers have the hashes \<^verbatim>\<open>undefined\<close>, \<^verbatim>\<open>null\<close>,
  the empty string, \<^verbatim>\<open>undefined\<close> again and \<^verbatim>\<open>0x05\<close>; the outgoing feed is empty.
\<close>

definition sampleMissing :: "transfer list" where
  "sampleMissing =
     [sampleTransfer HUndefined 9 ''7'',
      sampleTransfer HNull 8 ''8'',
      sampleTransfer (HString []) 7 ''9'',
      sampleTransfer HUndefined 6 ''10'',
      sampleTransfer (HString ''0x05'') 5 ''11'']"

definition sampleMissingEnv :: env where
  "sampleMissingEnv =
     sampleEnv\<lparr> getAssetTransfersForNetwork :=
       (\<lambda>req. if req_toAddress req \<noteq> None
              then Inr \<lparr> transfers = sampleMissing, pageKey = None \<rparr>
              else Inr \<lparr> transfers = [], pageKey = None \<rparr>) \<rparr>"

definition sampleManager :: vmanager where
  "sampleManager = initial ''sepolia'' ''0xb'' None 10"

text \<open>
  For the store: an empty store, the manager after one merge of the sample pages, and a
  value a caller may assign over a Full Transaction object.
\<close>

definition emptyStore :: store where
  "emptyStore = \<lparr> objects = [], arrays = [] \<rparr>"

definition sampleLoaded :: rmanager where
  "sampleLoaded = fst (snd (loadMore sampleLastEnv (initial ''sepolia'' ''0xb'' None 10)))"

definition tampered :: full_transaction where
  "tampered =
     \<lparr> ft_walletAddress = ''0xb'', ft_tandapayContractAddress = None, ft_transfers = [],
       ft_signedTransaction = None, ft_network = ''tampered'' \<rparr>"

section \<open>Properties\<close>

lemma isAtLastPage_initial: "\<not> isAtLastPage (initial net wallet contract pSize)"
  by (simp add: isAtLastPage_def initial_def)

lemma sortKey_Inr_valid:
  "transactionSortKey a b = Inr c \<Longrightarrow> validTimestamp a \<and> validTimestamp b"
  by (auto simp: transactionSortKey_def validTimestamp_def split: if_splits block_timestamp.splits)

lemma sortKey_valid:
  "validTimestamp a \<Longrightarrow> validTimestamp b \<Longrightarrow>
   transactionSortKey a b =
     Inr (if millis b < millis a then - 1 else if millis a < millis b then 1 else 0)"
  by (auto simp: transactionSortKey_def validTimestamp_def millis_def split: block_timestamp.splits)

lemma enqueue_head_valid:
  "enqueue tx (y # ys) = Inr q' \<Longrightarrow> validTimestamp tx \<and> validTimestamp y"
  by (auto split: sum.splits dest: sortKey_Inr_valid)

lemma enqueue_set:
  "enqueue tx q = Inr q' \<Longrightarrow> set q' = insert tx (set q) \<and> length q' = Suc (length q)"
proof (induction q arbitrary: q')
  case Nil
  then show ?case by auto
next
  case (Cons y ys)
  then show ?case
    by (fastforce split: sum.splits if_splits)
qed

lemma enqueue_sorted:
  "enqueue tx q = Inr q' \<Longrightarrow> validTimestamp tx \<Longrightarrow> list_all validTimestamp q \<Longrightarrow>
   sorted_wrt (\<lambda>a b. millis b \<le> millis a) q \<Longrightarrow>
   sorted_wrt (\<lambda>a b. millis b \<le> millis a) q'"
proof (induction q arbitrary: q')
  case Nil
  then show ?case by auto
next
  case (Cons y ys)
  from Cons.prems have vy: "validTimestamp y" by simp
  show ?case
  proof (cases "millis y < millis tx")
    case True
    with Cons.prems vy show ?thesis
      by (fastforce simp: sortKey_valid)
  next
    case False
    with Cons.prems vy obtain zs where zs: "enqueue tx ys = Inr zs" "q' = y # zs"
      by (auto simp: sortKey_valid split: sum.splits if_splits)
    from Cons.IH [OF zs(1)] Cons.prems have "sorted_wrt (\<lambda>a b. millis b \<le> millis a) zs"
      by simp
    moreover from enqueue_set [OF zs(1)] have "set zs = insert tx (set ys)" by simp
    ultimately show ?thesis
      using Cons.prems False zs(2) by auto
  qed
qed

lemma enqueue_queueOrdered:
  assumes "enqueue tx q = Inr q'" and "queueOrdered q"
  shows "queueOrdered q'"
proof (cases q)
  case Nil
  with assms show ?thesis by (auto simp: queueOrdered_def)
next
  case (Cons y ys)
  with assms(1) have v: "validTimestamp tx" "validTimestamp y"
    using enqueue_head_valid by blast+
  have all: "list_all validTimestamp q \<and> sorted_wrt (\<lambda>a b. millis b \<le> millis a) q"
  proof (cases ys)
    case Nil
    with Cons v show ?thesis by simp
  next
    case (Cons z zs)
    with \<open>q = y # ys\<close> assms(2) show ?thesis by (simp add: queueOrdered_def)
  qed
  then have "sorted_wrt (\<lambda>a b. millis b \<le> millis a) q'"
    using enqueue_sorted [OF assms(1) v(1)] by simp
  moreover have "list_all validTimestamp q'"
    using enqueue_set [OF assms(1)] all v(1) by (simp add: list_all_iff)
  ultimately show ?thesis by (simp add: queueOrdered_def)
qed

lemma enqueueAll_ok:
  "enqueueAll txs q = (None, q') \<Longrightarrow> queueOrdered q \<Longrightarrow>
   queueOrdered q' \<and> set q' = set txs \<union> set q"
proof (induction txs arbitrary: q)
  case Nil
  then show ?case by simp
next
  case (Cons tx txs)
  then obtain q1 where q1: "enqueue tx q = Inr q1" "enqueueAll txs q1 = (None, q')"
    by (auto split: sum.splits)
  from enqueue_queueOrdered [OF q1(1) Cons.prems(2)] Cons.IH [OF q1(2)]
  have "queueOrdered q' \<and> set q' = set txs \<union> set q1" by simp
  with enqueue_set [OF q1(1)] show ?case by auto
qed

lemma sorted_wrt_subseq:
  "subseq xs ys \<Longrightarrow> sorted_wrt P ys \<Longrightarrow> sorted_wrt P xs"
proof (induction rule: list_emb.induct)
  case (list_emb_Nil ys)
  then show ?case by simp
next
  case (list_emb_Cons xs ys y)
  then show ?case by simp
next
  case (list_emb_Cons2 x y xs ys)
  then have "set xs \<subseteq> set ys" by (auto dest: list_emb_set)
  with list_emb_Cons2 show ?case by auto
qed

lemma groupedFrom_Nil: "groupedFrom [] ([], [])"
  by (simp add: groupedFrom_def)

lemma filter_hash_nonempty:
  "h \<in> hash ` set q \<Longrightarrow> filter (\<lambda>tx. hash tx = h) q \<noteq> []"
  by (auto simp: filter_empty_conv)

lemma groupedFrom_step:
  assumes g: "groupedFrom q acc"
  shows "groupedFrom (q @ [tx]) (groupTransfer tx acc)"
proof -
  obtain Al Hs where acc: "acc = (Al, Hs)" by (cases acc)
  let ?k = "hash tx"
  let ?grp = "\<lambda>q h. filter (\<lambda>t. hash t = h) q"
  from g acc have keys: "map fst Al = Hs" and dist: "distinct Hs"
    and dom: "set Hs = hash ` set q"
    and grp: "\<forall>h\<in>set Hs. map_of Al h = Some (?grp q h)"
    and sub: "subseq (map (\<lambda>h. hd (?grp q h)) Hs) q"
    by (auto simp: groupedFrom_def list_all_iff)
  have hd_old: "hd (?grp (q @ [tx]) h) = hd (?grp q h)" if "h \<in> set Hs" for h
    using that dom filter_hash_nonempty [of h q] by auto
  show ?thesis
  proof (cases "?k \<in> set Hs")
    case True
    then have look: "map_of Al ?k = Some (?grp q ?k)" using grp by blast
    then have step: "groupTransfer tx acc = (AList.update ?k (?grp q ?k @ [tx]) Al, Hs)"
      by (simp add: groupTransfer_def acc)
    have k1: "map fst (AList.update ?k (?grp q ?k @ [tx]) Al) = Hs"
      using True keys by (simp add: update_keys)
    have k2: "set Hs = hash ` set (q @ [tx])" using True dom by auto
    have k3: "\<forall>h\<in>set Hs. map_of (AList.update ?k (?grp q ?k @ [tx]) Al) h = Some (?grp (q @ [tx]) h)"
      using grp by (auto simp: update_conv')
    have eq: "map (\<lambda>h. hd (?grp (q @ [tx]) h)) Hs = map (\<lambda>h. hd (?grp q h)) Hs"
      using hd_old by simp
    have k4: "subseq (map (\<lambda>h. hd (?grp (q @ [tx]) h)) Hs) (q @ [tx])"
      unfolding eq by (rule subseq_rev_drop_many [OF sub])
    from k1 dist k2 k3 k4 show ?thesis
      unfolding step groupedFrom_def list_all_iff by simp
  next
    case False
    then have "?k \<notin> fst ` set Al" using keys by (metis set_map)
    then have look: "map_of Al ?k = None" by (simp add: map_of_eq_None_iff)
    then have step: "groupTransfer tx acc = (AList.update ?k [tx] Al, Hs @ [?k])"
      by (simp add: groupTransfer_def acc)
    from False dom have "\<forall>t\<in>set q. hash t \<noteq> ?k" by (metis imageI)
    then have none: "?grp q ?k = []" by (simp add: filter_empty_conv)
    have k1: "map fst (AList.update ?k [tx] Al) = Hs @ [?k]"
      using False keys by (simp add: update_keys)
    have k2: "set (Hs @ [?k]) = hash ` set (q @ [tx])" using dom by auto
    have k3: "\<forall>h\<in>set (Hs @ [?k]). map_of (AList.update ?k [tx] Al) h = Some (?grp (q @ [tx]) h)"
      using grp none False by (auto simp: update_conv')
    have eq: "map (\<lambda>h. hd (?grp (q @ [tx]) h)) (Hs @ [?k]) = map (\<lambda>h. hd (?grp q h)) Hs @ [tx]"
      using hd_old none by simp
    have k4: "subseq (map (\<lambda>h. hd (?grp (q @ [tx]) h)) (Hs @ [?k])) (q @ [tx])"
      unfolding eq by (rule list_emb_append_mono [OF sub]) simp
    from k1 dist False k2 k3 k4 show ?thesis
      unfolding step groupedFrom_def list_all_iff by simp
  qed
qed

lemma groupedFrom_fold: "groupedFrom q (fold groupTransfer q ([], []))"
proof (induction q rule: rev_induct)
  case Nil
  show ?case by (simp add: groupedFrom_Nil)
next
  case (snoc tx q)
  then show ?case by (simp add: groupedFrom_step)
qed

lemma orderedTransactions_fresh:
  assumes "allTransactions m = []" and "inorderTransactionHashes m = []"
  shows "\<exists>Al Hs. groupedFrom (transactionQueue m) (Al, Hs) \<and>
           orderedTransactions m =
             (List.map_filter
                (buildFullTransaction (m\<lparr>allTransactions := Al, inorderTransactionHashes := Hs\<rparr>))
                (take (nat (maxSafeIndex (m\<lparr>allTransactions := Al, inorderTransactionHashes := Hs\<rparr>))) Hs),
              m\<lparr>allTransactions := Al, inorderTransactionHashes := Hs\<rparr>)"
proof -
  obtain Al Hs where f: "fold groupTransfer (transactionQueue m) ([], []) = (Al, Hs)"
    by (cases "fold groupTransfer (transactionQueue m) ([], [])")
  have "groupedFrom (transactionQueue m) (Al, Hs)"
    using groupedFrom_fold [of "transactionQueue m"] f by simp
  moreover have "orderedTransactions m =
       (List.map_filter
          (buildFullTransaction (m\<lparr>allTransactions := Al, inorderTransactionHashes := Hs\<rparr>))
          (take (nat (maxSafeIndex (m\<lparr>allTransactions := Al, inorderTransactionHashes := Hs\<rparr>))) Hs),
        m\<lparr>allTransactions := Al, inorderTransactionHashes := Hs\<rparr>)"
    using f assms by (simp add: orderedTransactions_def toArray_def Let_def)
  ultimately show ?thesis by blast
qed

lemma buildFullTransaction_grouped:
  assumes "groupedFrom q (allTransactions m, inorderTransactionHashes m)"
    and "h \<in> set (inorderTransactionHashes m)"
  shows "\<exists>ft. buildFullTransaction m h = Some ft \<and> ft_hash ft = Some h \<and>
           ft_transfers ft = filter (\<lambda>tx. hash tx = h) q \<and> ft_transfers ft \<noteq> [] \<and>
           ft_signedTransaction ft = map_of (allSignedTransactions m) h"
proof -
  let ?g = "filter (\<lambda>tx. hash tx = h) q"
  from assms have look: "map_of (allTransactions m) h = Some ?g" and "h \<in> hash ` set q"
    by (auto simp: groupedFrom_def list_all_iff)
  then have ne: "?g \<noteq> []" by (simp add: filter_hash_nonempty)
  then obtain t ts where g: "?g = t # ts" by (cases ?g) auto
  then have "t \<in> set ?g" by simp
  then have "hash t = h" by simp
  with look ne g show ?thesis
    by (simp add: buildFullTransaction_def ft_hash_def)
qed

lemma map_filter_all_Some:
  "\<forall>x\<in>set xs. f x \<noteq> None \<Longrightarrow> map Some (List.map_filter f xs) = map f xs"
  by (induction xs) (auto simp: List.map_filter_simps)

lemma built_prefix:
  assumes g: "groupedFrom q (allTransactions m, inorderTransactionHashes m)"
    and res: "res = List.map_filter (buildFullTransaction m) (take n (inorderTransactionHashes m))"
  shows "map Some res = map (buildFullTransaction m) (take n (inorderTransactionHashes m))"
    and "map ft_hash res = map Some (take n (inorderTransactionHashes m))"
    and "map ft_transfers res =
           map (\<lambda>h. filter (\<lambda>tx. hash tx = h) q) (take n (inorderTransactionHashes m))"
    and "map ft_signedTransaction res =
           map (map_of (allSignedTransactions m)) (take n (inorderTransactionHashes m))"
proof -
  let ?hs = "take n (inorderTransactionHashes m)"
  have mem: "\<forall>h\<in>set ?hs. h \<in> set (inorderTransactionHashes m)"
    by (auto dest: in_set_takeD)
  with buildFullTransaction_grouped [OF g]
  have all: "\<forall>h\<in>set ?hs. \<exists>ft. buildFullTransaction m h = Some ft \<and> ft_hash ft = Some h \<and>
           ft_transfers ft = filter (\<lambda>tx. hash tx = h) q \<and>
           ft_signedTransaction ft = map_of (allSignedTransactions m) h"
    by blast
  then have "\<forall>h\<in>set ?hs. buildFullTransaction m h \<noteq> None" by auto
  then show s: "map Some res = map (buildFullTransaction m) ?hs"
    unfolding res by (rule map_filter_all_Some)
  have "map (\<lambda>x. ft_hash (the x)) (map Some res) = map (\<lambda>x. ft_hash (the x)) (map (buildFullTransaction m) ?hs)"
    using s by simp
  then show "map ft_hash res = map Some ?hs"
    using all by (auto simp: comp_def)
  have "map (\<lambda>x. ft_transfers (the x)) (map Some res) = map (\<lambda>x. ft_transfers (the x)) (map (buildFullTransaction m) ?hs)"
    using s by simp
  then show "map ft_transfers res = map (\<lambda>h. filter (\<lambda>tx. hash tx = h) q) ?hs"
    using all by (auto simp: comp_def)
  have "map (\<lambda>x. ft_signedTransaction (the x)) (map Some res) = map (\<lambda>x. ft_signedTransaction (the x)) (map (buildFullTransaction m) ?hs)"
    using s by simp
  then show "map ft_signedTransaction res = map (map_of (allSignedTransactions m)) ?hs"
    using all by (auto simp: comp_def)
qed

lemma maxSafeIndex_le: "maxSafeIndex m \<le> int (length (inorderTransactionHashes m))"
  by (auto simp: maxSafeIndex_def)

lemma buildFullTransaction_cache [simp]:
  "buildFullTransaction (m\<lparr>getOrderedTransactionsCache := c\<rparr>) = buildFullTransaction m"
  by (rule ext) (simp add: buildFullTransaction_def split: option.splits)

lemma maxSafeIndex_cache [simp]:
  "maxSafeIndex (m\<lparr>getOrderedTransactionsCache := c\<rparr>) = maxSafeIndex m"
  by (simp add: maxSafeIndex_def isAtLastPage_def)

lemma getOrdered_dropped:
  "\<exists>Al Hs res. groupedFrom (transactionQueue m) (Al, Hs) \<and>
     getOrderedTransactions (dropGetOrderedTransactionsCache m) =
       (res, m\<lparr>allTransactions := Al, inorderTransactionHashes := Hs,
                getOrderedTransactionsCache := Some res\<rparr>) \<and>
     res = List.map_filter
             (buildFullTransaction (m\<lparr>allTransactions := Al, inorderTransactionHashes := Hs\<rparr>))
             (take (nat (maxSafeIndex (m\<lparr>allTransactions := Al, inorderTransactionHashes := Hs\<rparr>))) Hs)"
proof -
  let ?d = "dropGetOrderedTransactionsCache m"
  have fresh: "allTransactions ?d = []" "inorderTransactionHashes ?d = []"
    "getOrderedTransactionsCache ?d = None" "transactionQueue ?d = transactionQueue m"
    by (simp_all add: dropGetOrderedTransactionsCache_def)
  from orderedTransactions_fresh [OF fresh(1,2)] fresh(4)
  obtain Al Hs where g: "groupedFrom (transactionQueue m) (Al, Hs)"
    and o: "orderedTransactions ?d =
             (List.map_filter
                (buildFullTransaction (?d\<lparr>allTransactions := Al, inorderTransactionHashes := Hs\<rparr>))
                (take (nat (maxSafeIndex (?d\<lparr>allTransactions := Al, inorderTransactionHashes := Hs\<rparr>))) Hs),
              ?d\<lparr>allTransactions := Al, inorderTransactionHashes := Hs\<rparr>)"
    by auto
  have e1: "?d\<lparr>allTransactions := Al, inorderTransactionHashes := Hs\<rparr> =
            m\<lparr>allTransactions := Al, inorderTransactionHashes := Hs, getOrderedTransactionsCache := None\<rparr>"
    by (simp add: dropGetOrderedTransactionsCache_def)
  let ?R = "List.map_filter
             (buildFullTransaction (m\<lparr>allTransactions := Al, inorderTransactionHashes := Hs\<rparr>))
             (take (nat (maxSafeIndex (m\<lparr>allTransactions := Al, inorderTransactionHashes := Hs\<rparr>))) Hs)"
  have "getOrderedTransactions ?d =
          (?R, m\<lparr>allTransactions := Al, inorderTransactionHashes := Hs,
                   getOrderedTransactionsCache := Some ?R\<rparr>)"
    using o fresh(3) unfolding e1 by (simp add: getOrderedTransactions_def)
  with g show ?thesis by blast
qed

lemma getOrdered_eq_dropped:
  assumes "cacheCoherent m"
  shows "getOrderedTransactions m = getOrderedTransactions (dropGetOrderedTransactionsCache m)"
proof (cases "getOrderedTransactionsCache m")
  case None
  with assms have "dropGetOrderedTransactionsCache m = m"
    by (cases m) (simp add: cacheCoherent_def dropGetOrderedTransactionsCache_def)
  then show ?thesis by simp
next
  case (Some c)
  with assms show ?thesis
    by (simp add: cacheCoherent_def getOrderedTransactions_def)
qed

lemma getOrdered_result:
  assumes c: "cacheCoherent m" and r: "getOrderedTransactions m = (res, m')"
  shows "groupedFrom (transactionQueue m) (allTransactions m', inorderTransactionHashes m')"
    and "res = List.map_filter (buildFullTransaction m')
                 (take (nat (maxSafeIndex m')) (inorderTransactionHashes m'))"
    and "getOrderedTransactionsCache m' = Some res"
    and "\<exists>Al Hs. m' = m\<lparr>allTransactions := Al, inorderTransactionHashes := Hs,
                          getOrderedTransactionsCache := Some res\<rparr>"
    and "cacheCoherent m'"
proof -
  from getOrdered_dropped [of m] getOrdered_eq_dropped [OF c] r
  obtain Al Hs where g: "groupedFrom (transactionQueue m) (Al, Hs)"
    and m': "m' = m\<lparr>allTransactions := Al, inorderTransactionHashes := Hs,
                     getOrderedTransactionsCache := Some res\<rparr>"
    and res: "res = List.map_filter
             (buildFullTransaction (m\<lparr>allTransactions := Al, inorderTransactionHashes := Hs\<rparr>))
             (take (nat (maxSafeIndex (m\<lparr>allTransactions := Al, inorderTransactionHashes := Hs\<rparr>))) Hs)"
    by auto
  from g m' show "groupedFrom (transactionQueue m) (allTransactions m', inorderTransactionHashes m')"
    by simp
  from res m' show "res = List.map_filter (buildFullTransaction m')
                 (take (nat (maxSafeIndex m')) (inorderTransactionHashes m'))"
    by simp
  from m' show "getOrderedTransactionsCache m' = Some res" by simp
  from m' show "\<exists>Al Hs. m' = m\<lparr>allTransactions := Al, inorderTransactionHashes := Hs,
                          getOrderedTransactionsCache := Some res\<rparr>" by blast
  have "dropGetOrderedTransactionsCache m' = dropGetOrderedTransactionsCache m"
    unfolding m' by (simp add: dropGetOrderedTransactionsCache_def)
  with getOrdered_eq_dropped [OF c] r m' show "cacheCoherent m'"
    by (simp add: cacheCoherent_def)
qed

lemma invariant_initial: "invariant (initial net wallet contract pSize)"
  by (simp add: invariant_def initial_def queueOrdered_def cacheCoherent_def)

lemma invariant_getOrdered:
  assumes "invariant m"
  shows "invariant (snd (getOrderedTransactions m))"
proof -
  obtain res m' where r: "getOrderedTransactions m = (res, m')"
    by (cases "getOrderedTransactions m")
  from assms have c: "cacheCoherent m" by (simp add: invariant_def)
  from getOrdered_result(4,5) [OF c r] assms r show ?thesis
    by (auto simp: invariant_def)
qed

lemma incomingRequest_lock [simp]: "incomingRequest (m\<lparr>lock := b\<rparr>) = incomingRequest m"
  by (simp add: incomingRequest_def)

lemma outgoingRequest_lock [simp]: "outgoingRequest (m\<lparr>lock := b\<rparr>) = outgoingRequest m"
  by (simp add: outgoingRequest_def)

lemma unlock_locked: "\<not> lock m \<Longrightarrow> m\<lparr>lock := False\<rparr> = m"
  by (cases m) simp

lemma loadMore_locked: "lock m \<Longrightarrow> loadMore e m = (Returned, m, [])"
  by (simp add: loadMore_def)

lemma loadMore_unavailable:
  "\<not> lock m \<Longrightarrow> isAlchemyAvailableForNetwork e = Inr False \<Longrightarrow>
   loadMore e m = (Returned, m, [CheckAvailable])"
  by (simp add: loadMore_def unlock_locked)

lemma loadMore_availability_rejects:
  "\<not> lock m \<Longrightarrow> isAlchemyAvailableForNetwork e = Inl msg \<Longrightarrow>
   loadMore e m = (Thrown (RemoteError msg), m\<lparr>lock := True\<rparr>, [CheckAvailable])"
  by (simp add: loadMore_def)

lemma loadMore_fetch_rejects:
  assumes "\<not> lock m" and "isAlchemyAvailableForNetwork e = Inr True"
    and "promiseAll e (fst (pagePromise e (nextIncomingPage m) (incomingRequest m)))
                      (fst (pagePromise e (nextOutgoingPage m) (outgoingRequest m))) = Inl msg"
  shows "loadMore e m =
           (Thrown (FetchError (''Failed to fetch transactions: '' @ msg)), m,
            CheckAvailable # snd (pagePromise e (nextIncomingPage m) (incomingRequest m))
              @ snd (pagePromise e (nextOutgoingPage m) (outgoingRequest m)))"
  using assms by (simp add: loadMore_def Let_def case_prod_beta unlock_locked)

lemma loadMore_fetched:
  assumes "\<not> lock m" and "isAlchemyAvailableForNetwork e = Inr True"
    and "promiseAll e (fst (pagePromise e (nextIncomingPage m) (incomingRequest m)))
                      (fst (pagePromise e (nextOutgoingPage m) (outgoingRequest m))) = Inr (ri, ro)"
    and "mergeFetched e (m\<lparr>lock := True, nextIncomingPage := cursorOf (pageKey ri),
                             nextOutgoingPage := cursorOf (pageKey ro)\<rparr>)
           (transfers ri) (transfers ro) = (r, m3, c3)"
  shows "loadMore e m =
           (r, m3,
            CheckAvailable # snd (pagePromise e (nextIncomingPage m) (incomingRequest m))
              @ snd (pagePromise e (nextOutgoingPage m) (outgoingRequest m)) @ c3)"
  using assms by (simp add: loadMore_def Let_def case_prod_beta)

lemma mergeFetched_Returned:
  assumes "mergeFetched e m incoming outgoing = (Returned, m', cs)"
  shows "\<exists>q signed.
           enqueueAll (incoming @ outgoing) (transactionQueue m) = (None, q) \<and>
           populateSignedTransactions e
             (map (\<lambda>tx. hashOrEmpty (hash tx))
                (filter (\<lambda>tx. nonEmptyHash (hash tx)) (incoming @ outgoing)))
             (allSignedTransactions m) = (Returned, signed, cs) \<and>
           m' = m\<lparr>transactionQueue := q, allSignedTransactions := signed,
                   pagesLoaded := pagesLoaded m + 1, allTransactions := [],
                   inorderTransactionHashes := [], getOrderedTransactionsCache := None,
                   lock := False\<rparr>"
  using assms
  by (auto simp: mergeFetched_def dropGetOrderedTransactionsCache_def Let_def
           split: prod.splits option.splits outcome.splits)

lemma loadMore_Returned_cases:
  assumes "loadMore e m = (Returned, m', cs)"
  shows "(lock m \<and> m' = m \<and> cs = []) \<or>
         (\<not> lock m \<and> isAlchemyAvailableForNetwork e = Inr False \<and> m' = m \<and> cs = [CheckAvailable]) \<or>
         (\<not> lock m \<and> isAlchemyAvailableForNetwork e = Inr True \<and>
          (\<exists>ri ro c3.
             promiseAll e (fst (pagePromise e (nextIncomingPage m) (incomingRequest m)))
                          (fst (pagePromise e (nextOutgoingPage m) (outgoingRequest m))) = Inr (ri, ro) \<and>
             mergeFetched e (m\<lparr>lock := True, nextIncomingPage := cursorOf (pageKey ri),
                             nextOutgoingPage := cursorOf (pageKey ro)\<rparr>)
               (transfers ri) (transfers ro) = (Returned, m', c3) \<and>
             cs = CheckAvailable # snd (pagePromise e (nextIncomingPage m) (incomingRequest m))
                    @ snd (pagePromise e (nextOutgoingPage m) (outgoingRequest m)) @ c3))"
proof (cases "lock m")
  case True
  with assms show ?thesis by (simp add: loadMore_locked)
next
  case unlocked: False
  show ?thesis
  proof (cases "isAlchemyAvailableForNetwork e")
    case (Inl msg)
    with assms unlocked show ?thesis by (simp add: loadMore_availability_rejects)
  next
    case (Inr available)
    show ?thesis
    proof (cases available)
      case False
      with assms unlocked Inr show ?thesis by (simp add: loadMore_unavailable)
    next
      case True
      with Inr have av: "isAlchemyAvailableForNetwork e = Inr True" by simp
      show ?thesis
      proof (cases "promiseAll e (fst (pagePromise e (nextIncomingPage m) (incomingRequest m)))
                          (fst (pagePromise e (nextOutgoingPage m) (outgoingRequest m)))")
        case (Inl msg)
        from loadMore_fetch_rejects [OF unlocked av Inl] assms show ?thesis by simp
      next
        case (Inr p)
        obtain ri ro where p: "p = (ri, ro)" by (cases p)
        obtain r m3 c3 where mf: "mergeFetched e (m\<lparr>lock := True, nextIncomingPage := cursorOf (pageKey ri),
                             nextOutgoingPage := cursorOf (pageKey ro)\<rparr>)
               (transfers ri) (transfers ro) = (r, m3, c3)"
          by (metis prod_cases3)
        from loadMore_fetched [OF unlocked av Inr [unfolded p] mf] assms
        have "r = Returned" "m3 = m'"
          "cs = CheckAvailable # snd (pagePromise e (nextIncomingPage m) (incomingRequest m))
                    @ snd (pagePromise e (nextOutgoingPage m) (outgoingRequest m)) @ c3"
          by simp_all
        with mf Inr p unlocked av show ?thesis by blast
      qed
    qed
  qed
qed

lemma storeDetail_keys:
  "fst ` set (storeDetail d signed) = fst ` set signed \<or>
   (\<exists>h. nonEmptyHash h \<and> fst ` set (storeDetail d signed) = insert h (fst ` set signed))"
  by (auto simp: storeDetail_def dom_update split: option.splits)

lemma fold_storeDetail_keys:
  "fst ` set signed \<subseteq> fst ` set (fold storeDetail ds signed) \<and>
   (\<forall>h \<in> fst ` set (fold storeDetail ds signed). h \<in> fst ` set signed \<or> nonEmptyHash h)"
proof (induction ds arbitrary: signed)
  case Nil
  show ?case by simp
next
  case (Cons d ds)
  define K0 where "K0 = fst ` set signed"
  define K1 where "K1 = fst ` set (storeDetail d signed)"
  define K2 where "K2 = fst ` set (fold storeDetail ds (storeDetail d signed))"
  have a: "K1 = K0 \<or> (\<exists>h. nonEmptyHash h \<and> K1 = insert h K0)"
    unfolding K0_def K1_def by (rule storeDetail_keys)
  have b: "K1 \<subseteq> K2 \<and> (\<forall>h\<in>K2. h \<in> K1 \<or> nonEmptyHash h)"
    unfolding K1_def K2_def by (rule Cons.IH)
  have "K0 \<subseteq> K2 \<and> (\<forall>h\<in>K2. h \<in> K0 \<or> nonEmptyHash h)"
  proof (cases "K1 = K0")
    case True
    with b show ?thesis by simp
  next
    case False
    with a obtain h where "nonEmptyHash h" "K1 = insert h K0" by auto
    with b show ?thesis by auto
  qed
  then show ?case unfolding K0_def K2_def by simp
qed

lemma populate_result:
  assumes "populateSignedTransactions e hs signed = (r, signed', cs)"
  shows "signed' = signed \<or>
         (r = Returned \<and>
          getBatchTransactionsByHashForNetwork e
            (filter (\<lambda>h. map_of signed h = None) (filter nonEmptyHash hs))
          = Inr (case getBatchTransactionsByHashForNetwork e
                        (filter (\<lambda>h. map_of signed h = None) (filter nonEmptyHash hs)) of
                   Inr ds \<Rightarrow> ds | Inl _ \<Rightarrow> []) \<and>
          signed' = fold storeDetail
             (case getBatchTransactionsByHashForNetwork e
                     (filter (\<lambda>h. map_of signed h = None) (filter nonEmptyHash hs)) of
                Inr ds \<Rightarrow> ds | Inl _ \<Rightarrow> []) signed)"
proof (cases "filter nonEmptyHash hs = []")
  case True
  with assms show ?thesis by (simp add: populateSignedTransactions_def)
next
  case False
  show ?thesis
  proof (cases "getBatchTransactionsByHashForNetwork e
            (filter (\<lambda>h. map_of signed h = None) (filter nonEmptyHash hs))")
    case (Inl msg)
    with assms False show ?thesis by (simp add: populateSignedTransactions_def Let_def)
  next
    case (Inr ds)
    with assms False show ?thesis by (simp add: populateSignedTransactions_def Let_def)
  qed
qed

lemma populate_keys:
  assumes "populateSignedTransactions e hs signed = (r, signed', cs)"
  shows "fst ` set signed \<subseteq> fst ` set signed'"
    and "\<forall>h \<in> fst ` set signed'. h \<in> fst ` set signed \<or> nonEmptyHash h"
proof -
  let ?ds = "case getBatchTransactionsByHashForNetwork e
                     (filter (\<lambda>h. map_of signed h = None) (filter nonEmptyHash hs)) of
                Inr ds \<Rightarrow> ds | Inl _ \<Rightarrow> []"
  have both: "fst ` set signed \<subseteq> fst ` set signed' \<and>
        (\<forall>h \<in> fst ` set signed'. h \<in> fst ` set signed \<or> nonEmptyHash h)"
  proof (cases "signed' = signed")
    case True
    then show ?thesis by simp
  next
    case False
    with populate_result [OF assms] have "signed' = fold storeDetail ?ds signed" by simp
    with fold_storeDetail_keys [of signed ?ds] show ?thesis by simp
  qed
  from both show "fst ` set signed \<subseteq> fst ` set signed'" by simp
  from both show "\<forall>h \<in> fst ` set signed'. h \<in> fst ` set signed \<or> nonEmptyHash h" by simp
qed

lemma populate_calls:
  assumes "populateSignedTransactions e hs signed = (r, signed', cs)"
  shows "cs = (if filter nonEmptyHash hs = [] then []
               else [FetchBatch (filter (\<lambda>h. map_of signed h = None) (filter nonEmptyHash hs))])"
proof (cases "filter nonEmptyHash hs = []")
  case True
  with assms show ?thesis by (simp add: populateSignedTransactions_def)
next
  case False
  with assms show ?thesis
    by (cases "getBatchTransactionsByHashForNetwork e
            (filter (\<lambda>h. map_of signed h = None) (filter nonEmptyHash hs))")
       (auto simp add: populateSignedTransactions_def Let_def)
qed

lemma invariant_loadMore:
  assumes inv: "invariant m" and l: "loadMore e m = (Returned, m', cs)"
  shows "invariant m'"
proof -
  from inv have unlocked: "\<not> lock m" by (simp add: invariant_def)
  from loadMore_Returned_cases [OF l] unlocked
  have "m' = m \<or> (\<exists>(ri :: fetch_response) (ro :: fetch_response) c3.
        mergeFetched e (m\<lparr>lock := True, nextIncomingPage := cursorOf (pageKey ri),
                             nextOutgoingPage := cursorOf (pageKey ro)\<rparr>)
               (transfers ri) (transfers ro) = (Returned, m', c3))"
    by auto
  then consider (same) "m' = m"
    | (merged) ri :: fetch_response and ro :: fetch_response and c3 where
        "mergeFetched e (m\<lparr>lock := True, nextIncomingPage := cursorOf (pageKey ri),
                             nextOutgoingPage := cursorOf (pageKey ro)\<rparr>)
               (transfers ri) (transfers ro) = (Returned, m', c3)"
    by (elim disjE exE)
  then show ?thesis
  proof cases
    case same
    with inv show ?thesis by simp
  next
    case merged
    let ?m2 = "m\<lparr>lock := True, nextIncomingPage := cursorOf (pageKey ri),
                 nextOutgoingPage := cursorOf (pageKey ro)\<rparr>"
    from mergeFetched_Returned [OF merged] obtain q signed where
      q: "enqueueAll (transfers ri @ transfers ro) (transactionQueue m) = (None, q)"
      and p: "populateSignedTransactions e
             (map (\<lambda>tx. hashOrEmpty (hash tx))
                (filter (\<lambda>tx. nonEmptyHash (hash tx)) (transfers ri @ transfers ro)))
             (allSignedTransactions m) = (Returned, signed, c3)"
      and m': "m' = ?m2\<lparr>transactionQueue := q, allSignedTransactions := signed,
                   pagesLoaded := pagesLoaded ?m2 + 1, allTransactions := [],
                   inorderTransactionHashes := [], getOrderedTransactionsCache := None,
                   lock := False\<rparr>"
      by auto
    from inv have "queueOrdered (transactionQueue m)" by (simp add: invariant_def)
    with enqueueAll_ok [OF q] have qo: "queueOrdered q" by simp
    from inv have "\<forall>h \<in> fst ` set (allSignedTransactions m). nonEmptyHash h"
      by (simp add: invariant_def list_all_iff)
    with populate_keys(2) [OF p] have "\<forall>h \<in> fst ` set signed. nonEmptyHash h" by blast
    then have "list_all nonEmptyHash (map fst signed)" by (simp add: list_all_iff)
    with qo show ?thesis
      unfolding m' by (simp add: invariant_def cacheCoherent_def)
  qed
qed

lemma run_invariant:
  "run ops m = Some m' \<Longrightarrow> invariant m \<Longrightarrow> invariant m'"
proof (induction ops arbitrary: m)
  case Nil
  then show ?case by simp
next
  case (Cons a ops)
  show ?case
  proof (cases a)
    case (LoadMore e)
    obtain r m1 cs where l: "loadMore e m = (r, m1, cs)" by (metis prod_cases3)
    with Cons.prems(1) LoadMore have r: "r = Returned" and rest: "run ops m1 = Some m'"
      by (auto split: outcome.splits)
    from invariant_loadMore [OF Cons.prems(2) l [unfolded r]] have "invariant m1" .
    with Cons.IH [OF rest] show ?thesis .
  next
    case GetOrderedTransactions
    with Cons.prems(1) have "run ops (snd (getOrderedTransactions m)) = Some m'" by simp
    from Cons.IH [OF this invariant_getOrdered [OF Cons.prems(2)]] show ?thesis .
  qed
qed

lemma run_initial_invariant:
  "run ops (initial net wallet contract pSize) = Some m \<Longrightarrow> invariant m"
  by (rule run_invariant [OF _ invariant_initial])

lemma last_notin_take:
  assumes "distinct xs" and "n < length xs"
  shows "last xs \<notin> set (take n xs)"
proof -
  from assms(2) have ne: "xs \<noteq> []" by auto
  then have xs: "xs = butlast xs @ [last xs]" by simp
  from assms(2) have "n \<le> length (butlast xs)" by simp
  then have "take n xs = take n (butlast xs)"
    by (metis xs take_append diff_is_0_eq' take_0 append_Nil2)
  moreover from assms(1) xs have "last xs \<notin> set (butlast xs)"
    by (metis distinct_append distinct.simps(2) disjoint_iff list.set_intros(1) not_distinct_conv_prefix append_butlast_last_id distinct_butlast)
  ultimately show ?thesis by (auto dest: in_set_takeD)
qed

lemma getOrdered_frame:
  assumes c: "cacheCoherent m" and r: "getOrderedTransactions m = (res, m')"
  shows "isAtLastPage m' = isAtLastPage m" and "pagesLoaded m' = pagesLoaded m"
    and "pageSize m' = pageSize m" and "transactionQueue m' = transactionQueue m"
    and "allSignedTransactions m' = allSignedTransactions m" and "lock m' = lock m"
proof -
  from getOrdered_result(4) [OF c r] obtain Al Hs where
    m': "m' = m\<lparr>allTransactions := Al, inorderTransactionHashes := Hs,
                  getOrderedTransactionsCache := Some res\<rparr>" by blast
  show "isAtLastPage m' = isAtLastPage m" unfolding m' by (simp add: isAtLastPage_def)
  show "pagesLoaded m' = pagesLoaded m" unfolding m' by simp
  show "pageSize m' = pageSize m" unfolding m' by simp
  show "transactionQueue m' = transactionQueue m" unfolding m' by simp
  show "allSignedTransactions m' = allSignedTransactions m" unfolding m' by simp
  show "lock m' = lock m" unfolding m' by simp
qed

lemma ordered_hashes:
  assumes c: "cacheCoherent m" and r: "getOrderedTransactions m = (res, m')"
  shows "map ft_hash res =
           map Some (take (nat (maxSafeIndex m')) (inorderTransactionHashes m'))"
    and "distinct (inorderTransactionHashes m')"
    and "map Some res = map (buildFullTransaction m')
           (take (nat (maxSafeIndex m')) (inorderTransactionHashes m'))"
proof -
  note g = getOrdered_result(1) [OF c r] and res = getOrdered_result(2) [OF c r]
  from built_prefix(2) [OF g res]
  show "map ft_hash res = map Some (take (nat (maxSafeIndex m')) (inorderTransactionHashes m'))" .
  from g show "distinct (inorderTransactionHashes m')" by (simp add: groupedFrom_def)
  from built_prefix(1) [OF g res]
  show "map Some res = map (buildFullTransaction m')
           (take (nat (maxSafeIndex m')) (inorderTransactionHashes m'))" .
qed

text \<open>
  C3. After any sequence of successful \<^verbatim>\<open>loadMore()\<close> calls (with calls of
  \<^verbatim>\<open>getOrderedTransactions()\<close> anywhere between them), no two Full Transactions returned by
  \<^verbatim>\<open>getOrderedTransactions()\<close> stand for the same transaction hash, however many transfers
  share a hash.
\<close>

theorem ordered_transactions_distinct_hashes:
  assumes "run ops (initial net wallet contract pSize) = Some m"
  shows "distinct (map ft_hash (fst (getOrderedTransactions m)))"
proof -
  obtain res m' where r: "getOrderedTransactions m = (res, m')"
    by (cases "getOrderedTransactions m")
  from run_initial_invariant [OF assms] have c: "cacheCoherent m"
    by (simp add: invariant_def)
  from ordered_hashes(2) [OF c r]
  have "distinct (take (nat (maxSafeIndex m')) (inorderTransactionHashes m'))"
    by (rule distinct_take)
  then have "distinct (map Some (take (nat (maxSafeIndex m')) (inorderTransactionHashes m')))"
    by (simp add: distinct_map)
  with ordered_hashes(1) [OF c r] r show ?thesis by simp
qed

theorem ordered_transactions_distinct_hashes_witness:
  "(case run [LoadMore sampleEnv, GetOrderedTransactions, LoadMore sampleLastEnv]
           (initial ''sepolia'' ''0xb'' None 10) of
      None \<Rightarrow> False
    | Some m \<Rightarrow> length (fst (getOrderedTransactions m)) = 5 \<and>
               distinct (map ft_hash (fst (getOrderedTransactions m))))"
proof -
  let ?r = "run [LoadMore sampleEnv, GetOrderedTransactions, LoadMore sampleLastEnv]
              (initial ''sepolia'' ''0xb'' None 10)"
  have len: "(case ?r of None \<Rightarrow> False | Some m \<Rightarrow> length (fst (getOrderedTransactions m)) = 5)"
    by code_simp
  then obtain m where m: "?r = Some m" by (cases ?r) auto
  from ordered_transactions_distinct_hashes [OF m] len m show ?thesis by simp
qed

lemma notAfter_iff:
  "notAfter a b \<longleftrightarrow> validTimestamp a \<and> validTimestamp b \<and> millis b \<le> millis a"
proof (cases "validTimestamp a \<and> validTimestamp b")
  case True
  then show ?thesis by (simp add: notAfter_def sortKey_valid)
next
  case False
  then have "\<exists>e. transactionSortKey a b = Inl e"
    using sortKey_Inr_valid [of a b] by (cases "transactionSortKey a b") auto
  with False show ?thesis by (auto simp: notAfter_def)
qed

lemma sorted_group_head:
  assumes "sorted_wrt (\<lambda>a b. millis b \<le> millis a) g" and "y \<in> set g"
  shows "millis y \<le> millis (hd g)"
  using assms by (cases g) auto

lemma groups_descending:
  assumes g: "groupedFrom q (Al, Hs)"
    and valid: "list_all validTimestamp q"
    and sorted: "sorted_wrt (\<lambda>a b. millis b \<le> millis a) q"
  shows "sorted_wrt (\<lambda>h1 h2. \<forall>y\<in>set (filter (\<lambda>tx. hash tx = h2) q).
                       notAfter (hd (filter (\<lambda>tx. hash tx = h1) q)) y) Hs"
proof -
  let ?G = "\<lambda>h. filter (\<lambda>tx. hash tx = h) q"
  from g have sub: "subseq (map (\<lambda>h. hd (?G h)) Hs) q" and dom: "set Hs = hash ` set q"
    by (simp_all add: groupedFrom_def)
  from sorted_wrt_subseq [OF sub sorted]
  have heads: "sorted_wrt (\<lambda>h1 h2. millis (hd (?G h2)) \<le> millis (hd (?G h1))) Hs"
    by (simp add: sorted_wrt_map)
  have step: "\<forall>y\<in>set (?G h2). notAfter (hd (?G h1)) y"
    if h1: "h1 \<in> set Hs" and h2: "h2 \<in> set Hs"
      and le: "millis (hd (?G h2)) \<le> millis (hd (?G h1))" for h1 h2
  proof
    fix y assume y: "y \<in> set (?G h2)"
    from h1 dom have "?G h1 \<noteq> []" by (simp add: filter_hash_nonempty)
    then have "hd (?G h1) \<in> set (?G h1)" by (rule hd_in_set)
    then have in1: "hd (?G h1) \<in> set q" by (metis filter_is_subset subsetD)
    from y have in2: "y \<in> set q" by simp
    from sorted have "sorted_wrt (\<lambda>a b. millis b \<le> millis a) (?G h2)"
      by (rule sorted_wrt_filter)
    from sorted_group_head [OF this y] le have "millis y \<le> millis (hd (?G h1))" by simp
    with in1 in2 valid show "notAfter (hd (?G h1)) y"
      by (simp add: notAfter_iff list_all_iff)
  qed
  from heads show ?thesis
    by (rule sorted_wrt_mono_rel [rotated]) (use step in blast)
qed

lemma short_queue_groups:
  assumes g: "groupedFrom q (Al, Hs)" and short: "length q \<le> 1"
  shows "length Hs \<le> 1"
proof -
  from g have "distinct Hs" and "set Hs = hash ` set q" by (simp_all add: groupedFrom_def)
  then have "length Hs = card (hash ` set q)" by (metis distinct_card)
  also have "\<dots> \<le> card (set q)" by (rule card_image_le) simp
  also have "\<dots> \<le> length q" by (rule card_length)
  finally show ?thesis using short by simp
qed

lemma short_sorted_wrt: "length xs \<le> 1 \<Longrightarrow> sorted_wrt P xs"
  by (cases xs) auto

lemma ordered_descending:
  assumes inv: "invariant m" and r: "getOrderedTransactions m = (res, m')"
  shows "sorted_wrt (\<lambda>a b. \<forall>y\<in>set (ft_transfers b). notAfter (hd (ft_transfers a)) y) res"
proof -
  from inv have c: "cacheCoherent m" and qo: "queueOrdered (transactionQueue m)"
    by (simp_all add: invariant_def)
  let ?q = "transactionQueue m"
  let ?H = "inorderTransactionHashes m'"
  let ?n = "nat (maxSafeIndex m')"
  let ?P = "\<lambda>ga gb. \<forall>y\<in>set gb. notAfter (hd ga) y"
  note g = getOrdered_result(1) [OF c r] and res = getOrdered_result(2) [OF c r]
  note tr = built_prefix(3) [OF g res]
  have "sorted_wrt (\<lambda>h1 h2. ?P (filter (\<lambda>tx. hash tx = h1) ?q) (filter (\<lambda>tx. hash tx = h2) ?q))
          (take ?n ?H)"
  proof (cases "length ?q \<le> 1")
    case True
    from short_queue_groups [OF g True] have "length (take ?n ?H) \<le> 1" by simp
    then show ?thesis by (rule short_sorted_wrt)
  next
    case False
    with qo have "list_all validTimestamp ?q" "sorted_wrt (\<lambda>a b. millis b \<le> millis a) ?q"
      by (simp_all add: queueOrdered_def)
    from groups_descending [OF g this] show ?thesis
      by (rule sorted_wrt_take)
  qed
  then have "sorted_wrt ?P (map (\<lambda>h. filter (\<lambda>tx. hash tx = h) ?q) (take ?n ?H))"
    by (simp add: sorted_wrt_map)
  then have "sorted_wrt ?P (map ft_transfers res)" by (simp only: tr)
  then show ?thesis by (simp add: sorted_wrt_map)
qed

lemma ordered_groups_nonempty:
  assumes c: "cacheCoherent m" and r: "getOrderedTransactions m = (res, m')"
  shows "list_all (\<lambda>ft. ft_transfers ft \<noteq> []) res"
proof -
  note g = getOrdered_result(1) [OF c r] and res = getOrdered_result(2) [OF c r]
  from g have dom: "set (inorderTransactionHashes m') = hash ` set (transactionQueue m)"
    by (simp add: groupedFrom_def)
  have "\<forall>g\<in>set (map ft_transfers res). g \<noteq> []"
    unfolding built_prefix(3) [OF g res]
    using dom filter_hash_nonempty [of _ "transactionQueue m"]
    by (auto dest!: in_set_takeD)
  then show ?thesis by (simp add: list_all_iff)
qed

text \<open>
  C1. In a state reached by successful \<^verbatim>\<open>loadMore()\<close> calls, \<^verbatim>\<open>getOrderedTransactions()\<close>
  returns one Full Transaction for each of the first \<open>k\<close> hashes of the ordered hash list,
  in that order, and nothing else. While \<^verbatim>\<open>isAtLastPage()\<close> is false, \<open>k\<close> is the minimum of
  \<^verbatim>\<open>pagesLoaded * floor(_pageSize / 2)\<close> and \<^verbatim>\<open>max(length - 1, 0)\<close>, so the last hash of the
  list (the one seen last) is left out; when \<^verbatim>\<open>isAtLastPage()\<close> is true, \<open>k\<close> is the length of
  the list. The list holds each hash of the queue once.
\<close>

theorem safe_prefix_of_ordered_hashes:
  assumes "run ops (initial net wallet contract pSize) = Some m"
    and "getOrderedTransactions m = (res, m')"
  shows "(\<not> isAtLastPage m \<longrightarrow>
            map ft_hash res =
              map Some (take (nat (min (pagesLoaded m * (pageSize m div 2))
                                       (max (int (length (inorderTransactionHashes m')) - 1) 0)))
                          (inorderTransactionHashes m')) \<and>
            (inorderTransactionHashes m' \<noteq> [] \<longrightarrow>
               Some (last (inorderTransactionHashes m')) \<notin> set (map ft_hash res))) \<and>
         (isAtLastPage m \<longrightarrow>
            maxSafeIndex m' = int (length (inorderTransactionHashes m')) \<and>
            map ft_hash res = map Some (inorderTransactionHashes m')) \<and>
         map Some res =
           map (buildFullTransaction m')
             (take (nat (maxSafeIndex m')) (inorderTransactionHashes m')) \<and>
         distinct (inorderTransactionHashes m') \<and>
         set (inorderTransactionHashes m') = hash ` set (transactionQueue m)"
proof -
  let ?H = "inorderTransactionHashes m'"
  from run_initial_invariant [OF assms(1)] have c: "cacheCoherent m"
    by (simp add: invariant_def)
  note r = assms(2)
  note hs = ordered_hashes(1) [OF c r] and dist = ordered_hashes(2) [OF c r]
  note fr = getOrdered_frame(1,2,3) [OF c r]
  have notlast: "map ft_hash res =
              map Some (take (nat (min (pagesLoaded m * (pageSize m div 2))
                                       (max (int (length ?H) - 1) 0))) ?H) \<and>
            (?H \<noteq> [] \<longrightarrow> Some (last ?H) \<notin> set (map ft_hash res))"
    if nl: "\<not> isAtLastPage m"
  proof -
    let ?k = "min (pagesLoaded m * (pageSize m div 2)) (max (int (length ?H) - 1) 0)"
    from nl fr have k: "maxSafeIndex m' = ?k" by (simp add: maxSafeIndex_def)
    have "Some (last ?H) \<notin> set (map ft_hash res)" if ne: "?H \<noteq> []"
    proof -
      from ne have "nat ?k < length ?H" by (cases ?H) auto
      from last_notin_take [OF dist this] show ?thesis
        unfolding hs k by auto
    qed
    with hs k show ?thesis by simp
  qed
  have atlast: "maxSafeIndex m' = int (length ?H) \<and> map ft_hash res = map Some ?H"
    if l: "isAtLastPage m"
  proof -
    from l fr have "maxSafeIndex m' = int (length ?H)" by (simp add: maxSafeIndex_def)
    with hs show ?thesis by simp
  qed
  from getOrdered_result(1) [OF c r]
  have dom: "set ?H = hash ` set (transactionQueue m)" by (simp add: groupedFrom_def)
  from notlast atlast ordered_hashes(3) [OF c r] dist dom show ?thesis by blast
qed

theorem safe_prefix_of_ordered_hashes_witness:
  "(case run [LoadMore sampleEnv] (initial ''sepolia'' ''0xb'' None 10) of
      None \<Rightarrow> False
    | Some m \<Rightarrow>
        (case getOrderedTransactions m of
           (res, m') \<Rightarrow>
             \<not> isAtLastPage m \<and>
             inorderTransactionHashes m' =
               [HString ''0x01'', HString ''0x03'', HString ''0x02'', HString []] \<and>
             pagesLoaded m * (pageSize m div 2) = 10 \<and>
             map ft_hash res =
               map Some (take (nat (min (pagesLoaded m * (pageSize m div 2))
                                        (max (int (length (inorderTransactionHashes m')) - 1) 0)))
                           (inorderTransactionHashes m')) \<and>
             Some (last (inorderTransactionHashes m')) \<notin> set (map ft_hash res)))"
proof -
  let ?r = "run [LoadMore sampleEnv] (initial ''sepolia'' ''0xb'' None 10)"
  have ev: "(case ?r of None \<Rightarrow> False
             | Some m \<Rightarrow>
                 (case getOrderedTransactions m of
                    (res, m') \<Rightarrow>
                      \<not> isAtLastPage m \<and>
                      inorderTransactionHashes m' =
                        [HString ''0x01'', HString ''0x03'', HString ''0x02'', HString []] \<and>
                      pagesLoaded m * (pageSize m div 2) = 10))"
    by code_simp
  then obtain m where m: "?r = Some m" by (cases ?r) auto
  obtain res m' where r: "getOrderedTransactions m = (res, m')"
    by (cases "getOrderedTransactions m")
  from ev m r have nl: "\<not> isAtLastPage m" and ne: "inorderTransactionHashes m' \<noteq> []"
    by auto
  from safe_prefix_of_ordered_hashes [OF m r] nl ne ev m r show ?thesis by simp
qed

text \<open>
  C2. In a state reached by successful \<^verbatim>\<open>loadMore()\<close> calls, the sequence returned by
  \<^verbatim>\<open>getOrderedTransactions()\<close> is in descending order of block timestamp as the comparator
  \<^verbatim>\<open>_transactionSortKey\<close> ranks it (equal timestamps rank equal): every group holds a
  transfer, and the first transfer of a group, which is its most recent one, is ranked
  before or equal to every transfer of every later group.
\<close>

theorem ordered_transactions_descending:
  assumes "run ops (initial net wallet contract pSize) = Some m"
    and "getOrderedTransactions m = (res, m')"
  shows "list_all (\<lambda>ft. ft_transfers ft \<noteq> []) res \<and>
         sorted_wrt (\<lambda>a b. \<forall>y\<in>set (ft_transfers b). notAfter (hd (ft_transfers a)) y) res"
proof -
  from run_initial_invariant [OF assms(1)] have inv: "invariant m" .
  then have c: "cacheCoherent m" by (simp add: invariant_def)
  from ordered_groups_nonempty [OF c assms(2)] ordered_descending [OF inv assms(2)]
  show ?thesis by simp
qed

theorem ordered_transactions_descending_witness:
  "(case run [LoadMore sampleEnv, GetOrderedTransactions, LoadMore sampleLastEnv]
           (initial ''sepolia'' ''0xb'' None 10) of
      None \<Rightarrow> False
    | Some m \<Rightarrow>
        (case getOrderedTransactions m of
           (res, m') \<Rightarrow>
             map (\<lambda>ft. map millis (ft_transfers ft)) res = [[30, 30], [25], [20], [10], [5]] \<and>
             list_all (\<lambda>ft. ft_transfers ft \<noteq> []) res \<and>
             sorted_wrt (\<lambda>a b. \<forall>y\<in>set (ft_transfers b). notAfter (hd (ft_transfers a)) y) res))"
proof -
  let ?r = "run [LoadMore sampleEnv, GetOrderedTransactions, LoadMore sampleLastEnv]
              (initial ''sepolia'' ''0xb'' None 10)"
  have ev: "(case ?r of None \<Rightarrow> False
             | Some m \<Rightarrow>
                 (case getOrderedTransactions m of
                    (res, m') \<Rightarrow>
                      map (\<lambda>ft. map millis (ft_transfers ft)) res
                        = [[30, 30], [25], [20], [10], [5]]))"
    by code_simp
  then obtain m where m: "?r = Some m" by (cases ?r) auto
  obtain res m' where r: "getOrderedTransactions m = (res, m')"
    by (cases "getOrderedTransactions m")
  from ordered_transactions_descending [OF m r] ev m r show ?thesis by simp
qed

lemma pagePromise_fetch:
  "c \<noteq> Null \<Longrightarrow> pagePromise e c req = (getAssetTransfersForNetwork e req, [FetchPage req])"
  by (simp add: pagePromise_def)

lemma pagePromise_exhausted:
  "pagePromise e Null req = (Inr \<lparr> transfers = [], pageKey = None \<rparr>, [])"
  by (simp add: pagePromise_def)

lemma promiseAll_rejects:
  assumes "isl a \<or> isl b"
  shows "\<exists>cause. promiseAll e a b = Inl cause \<and> (a = Inl cause \<or> b = Inl cause)"
  using assms by (cases a; cases b) (auto simp: promiseAll_def)

lemma promiseAll_resolves:
  "promiseAll e a b = Inr (x, y) \<Longrightarrow> a = Inr x \<and> b = Inr y"
  by (cases a; cases b) (auto simp: promiseAll_def split: if_splits)

lemma loadMore_unlocked_available:
  assumes "\<not> lock m" and "isAlchemyAvailableForNetwork e = Inr True"
  shows "loadMore e m =
     (case promiseAll e (fst (pagePromise e (nextIncomingPage m) (incomingRequest m)))
                        (fst (pagePromise e (nextOutgoingPage m) (outgoingRequest m))) of
        Inl msg \<Rightarrow>
          (Thrown (FetchError (''Failed to fetch transactions: '' @ msg)), m,
           CheckAvailable # snd (pagePromise e (nextIncomingPage m) (incomingRequest m))
             @ snd (pagePromise e (nextOutgoingPage m) (outgoingRequest m)))
      | Inr (ri, ro) \<Rightarrow>
          (case mergeFetched e
                  (m\<lparr>lock := True, nextIncomingPage := cursorOf (pageKey ri),
                       nextOutgoingPage := cursorOf (pageKey ro)\<rparr>)
                  (transfers ri) (transfers ro) of
             (r, m3, c3) \<Rightarrow>
               (r, m3,
                CheckAvailable # snd (pagePromise e (nextIncomingPage m) (incomingRequest m))
                  @ snd (pagePromise e (nextOutgoingPage m) (outgoingRequest m)) @ c3)))"
  using assms
  by (simp add: loadMore_def Let_def case_prod_beta unlock_locked split: sum.splits)

lemma pageRequests_append [simp]: "pageRequests (xs @ ys) = pageRequests xs @ pageRequests ys"
  by (induction xs rule: pageRequests.induct) simp_all

lemma batchRequests_append [simp]: "batchRequests (xs @ ys) = batchRequests xs @ batchRequests ys"
  by (induction xs rule: batchRequests.induct) simp_all

lemma pagePromise_calls:
  "pageRequests (snd (pagePromise e c req)) = (if c = Null then [] else [req])"
  "batchRequests (snd (pagePromise e c req)) = []"
  by (simp_all add: pagePromise_def)

lemma populate_requests:
  assumes "populateSignedTransactions e hs signed = (r, signed', cs)"
  shows "pageRequests cs = []"
    and "batchRequests cs = (if filter nonEmptyHash hs = [] then []
               else [filter (\<lambda>h. map_of signed h = None) (filter nonEmptyHash hs)])"
  using populate_calls [OF assms] by simp_all

lemma fresh_hashes:
  "filter nonEmptyHash
     (map (\<lambda>tx. hashOrEmpty (hash tx)) (filter (\<lambda>tx. nonEmptyHash (hash tx)) txs))
   = filter nonEmptyHash (map hash txs)"
  by (induction txs) (auto simp: hashOrEmpty_def nonEmptyHash_def split: js_hash.splits)

lemma mergeFetched_requests:
  assumes "mergeFetched e m incoming outgoing = (r, m', cs)"
  shows "pageRequests cs = []"
    and "batchRequests cs = [] \<or>
         batchRequests cs =
           [filter (\<lambda>h. map_of (allSignedTransactions m) h = None)
              (filter nonEmptyHash (map hash (incoming @ outgoing)))]"
    and "r = Returned \<Longrightarrow>
         batchRequests cs =
           (if filter nonEmptyHash (map hash (incoming @ outgoing)) = [] then []
            else [filter (\<lambda>h. map_of (allSignedTransactions m) h = None)
                    (filter nonEmptyHash (map hash (incoming @ outgoing)))])"
proof -
  obtain err q where eq: "enqueueAll (incoming @ outgoing) (transactionQueue m) = (err, q)"
    by (cases "enqueueAll (incoming @ outgoing) (transactionQueue m)")
  obtain r1 signed c1 where p: "populateSignedTransactions e
          (map (\<lambda>tx. hashOrEmpty (hash tx))
             (filter (\<lambda>tx. nonEmptyHash (hash tx)) (incoming @ outgoing)))
          (allSignedTransactions m) = (r1, signed, c1)"
    by (metis prod_cases3)
  note pr = populate_requests [OF p, unfolded fresh_hashes]
  have cs: "(err \<noteq> None \<and> cs = [] \<and> r \<noteq> Returned) \<or> (err = None \<and> cs = c1)"
    using assms eq p
    by (cases err; cases r1) (auto simp: mergeFetched_def Let_def)
  with pr(1) show "pageRequests cs = []" by auto
  from cs pr(2) show "batchRequests cs = [] \<or>
         batchRequests cs =
           [filter (\<lambda>h. map_of (allSignedTransactions m) h = None)
              (filter nonEmptyHash (map hash (incoming @ outgoing)))]"
    by (auto split: if_splits)
  from cs pr(2) show "r = Returned \<Longrightarrow>
         batchRequests cs =
           (if filter nonEmptyHash (map hash (incoming @ outgoing)) = [] then []
            else [filter (\<lambda>h. map_of (allSignedTransactions m) h = None)
                    (filter nonEmptyHash (map hash (incoming @ outgoing)))])"
    by auto
qed

lemma mergeFetched_cursors:
  assumes "mergeFetched e m incoming outgoing = (r, m', cs)"
  shows "nextIncomingPage m' = nextIncomingPage m \<and> nextOutgoingPage m' = nextOutgoingPage m"
proof -
  obtain err q where eq: "enqueueAll (incoming @ outgoing) (transactionQueue m) = (err, q)"
    by (cases "enqueueAll (incoming @ outgoing) (transactionQueue m)")
  obtain r1 signed c1 where p: "populateSignedTransactions e
          (map (\<lambda>tx. hashOrEmpty (hash tx))
             (filter (\<lambda>tx. nonEmptyHash (hash tx)) (incoming @ outgoing)))
          (allSignedTransactions m) = (r1, signed, c1)"
    by (metis prod_cases3)
  show ?thesis
    using assms eq p
    by (cases err; cases r1)
       (auto simp: mergeFetched_def Let_def dropGetOrderedTransactionsCache_def)
qed

lemma mergeFetched_signed:
  assumes "mergeFetched e m incoming outgoing = (r, m', cs)"
  shows "fst ` set (allSignedTransactions m) \<subseteq> fst ` set (allSignedTransactions m')"
proof -
  obtain err q where eq: "enqueueAll (incoming @ outgoing) (transactionQueue m) = (err, q)"
    by (cases "enqueueAll (incoming @ outgoing) (transactionQueue m)")
  obtain r1 signed c1 where p: "populateSignedTransactions e
          (map (\<lambda>tx. hashOrEmpty (hash tx))
             (filter (\<lambda>tx. nonEmptyHash (hash tx)) (incoming @ outgoing)))
          (allSignedTransactions m) = (r1, signed, c1)"
    by (metis prod_cases3)
  have "allSignedTransactions m' = allSignedTransactions m \<or> allSignedTransactions m' = signed"
    using assms eq p
    by (cases err; cases r1)
       (auto simp: mergeFetched_def Let_def dropGetOrderedTransactionsCache_def)
  with populate_keys(1) [OF p] show ?thesis by auto
qed

text \<open>
  C4. When \<^verbatim>\<open>loadMore()\<close> is entered with the lock free and the remote source available, and
  the page fetch of a feed that is fetched (its cursor is not \<^verbatim>\<open>null\<close>) rejects, then
  \<^verbatim>\<open>loadMore()\<close> throws the error \<^verbatim>\<open>Failed to fetch transactions: \<close> followed by the message of
  a rejected fetch, and the manager is exactly as before the call: both cursors, the queue,
  \<^verbatim>\<open>_pagesLoaded\<close>, the grouping maps and the cache are unchanged, and the lock is free.
\<close>

theorem fetch_rejection_leaves_state:
  assumes "\<not> lock m" and "isAlchemyAvailableForNetwork e = Inr True"
    and "(nextIncomingPage m \<noteq> Null \<and> isl (getAssetTransfersForNetwork e (incomingRequest m))) \<or>
         (nextOutgoingPage m \<noteq> Null \<and> isl (getAssetTransfersForNetwork e (outgoingRequest m)))"
  shows "\<exists>cause.
           fst (loadMore e m) = Thrown (FetchError (''Failed to fetch transactions: '' @ cause)) \<and>
           ((nextIncomingPage m \<noteq> Null \<and>
               getAssetTransfersForNetwork e (incomingRequest m) = Inl cause) \<or>
            (nextOutgoingPage m \<noteq> Null \<and>
               getAssetTransfersForNetwork e (outgoingRequest m) = Inl cause)) \<and>
           fst (snd (loadMore e m)) = m \<and>
           \<not> lock (fst (snd (loadMore e m)))"
proof -
  let ?a = "fst (pagePromise e (nextIncomingPage m) (incomingRequest m))"
  let ?b = "fst (pagePromise e (nextOutgoingPage m) (outgoingRequest m))"
  from assms(3) have "isl ?a \<or> isl ?b" by (auto simp: pagePromise_def)
  from promiseAll_rejects [OF this, of e] obtain cause where
    p: "promiseAll e ?a ?b = Inl cause" and c: "?a = Inl cause \<or> ?b = Inl cause" by blast
  from c have src: "(nextIncomingPage m \<noteq> Null \<and>
               getAssetTransfersForNetwork e (incomingRequest m) = Inl cause) \<or>
            (nextOutgoingPage m \<noteq> Null \<and>
               getAssetTransfersForNetwork e (outgoingRequest m) = Inl cause)"
    by (auto simp: pagePromise_def split: if_splits)
  from loadMore_fetch_rejects [OF assms(1,2) p] assms(1) src show ?thesis by auto
qed

theorem fetch_rejection_leaves_state_witness:
  "\<not> lock sampleManager \<and> isAlchemyAvailableForNetwork sampleRejectingEnv = Inr True \<and>
   nextOutgoingPage sampleManager \<noteq> Null \<and>
   getAssetTransfersForNetwork sampleRejectingEnv (outgoingRequest sampleManager) = Inl ''timeout'' \<and>
   getAssetTransfersForNetwork sampleRejectingEnv (incomingRequest sampleManager)
     = Inr \<lparr> transfers = sampleIncoming, pageKey = Some ''next'' \<rparr> \<and>
   fst (loadMore sampleRejectingEnv sampleManager)
     = Thrown (FetchError ''Failed to fetch transactions: timeout'') \<and>
   fst (snd (loadMore sampleRejectingEnv sampleManager)) = sampleManager"
proof -
  have h: "\<not> lock sampleManager" "isAlchemyAvailableForNetwork sampleRejectingEnv = Inr True"
    "nextOutgoingPage sampleManager \<noteq> Null"
    "getAssetTransfersForNetwork sampleRejectingEnv (outgoingRequest sampleManager) = Inl ''timeout''"
    "getAssetTransfersForNetwork sampleRejectingEnv (incomingRequest sampleManager)
       = Inr \<lparr> transfers = sampleIncoming, pageKey = Some ''next'' \<rparr>"
    by (simp_all add: sampleManager_def sampleRejectingEnv_def sampleEnv_def initial_def
          outgoingRequest_def incomingRequest_def)
  from h(3,4) have "(nextIncomingPage sampleManager \<noteq> Null \<and>
        isl (getAssetTransfersForNetwork sampleRejectingEnv (incomingRequest sampleManager))) \<or>
       (nextOutgoingPage sampleManager \<noteq> Null \<and>
        isl (getAssetTransfersForNetwork sampleRejectingEnv (outgoingRequest sampleManager)))"
    by simp
  from fetch_rejection_leaves_state [OF h(1,2) this] h show ?thesis by auto
qed

text \<open>
  C9. The signed-details map \<^verbatim>\<open>_allSignedTransactions\<close> never loses a key: the invalidation
  \<^verbatim>\<open>_dropGetOrderedTransactionsCache\<close> empties the grouping map, the ordered hash list and
  the cache and leaves the signed-details map as it is; \<^verbatim>\<open>getOrderedTransactions()\<close> leaves
  it as it is; and after \<^verbatim>\<open>loadMore()\<close>, however it ends, every key it held is still a key.
\<close>

theorem signed_details_never_removed:
  "allSignedTransactions (dropGetOrderedTransactionsCache m) = allSignedTransactions m \<and>
   allTransactions (dropGetOrderedTransactionsCache m) = [] \<and>
   inorderTransactionHashes (dropGetOrderedTransactionsCache m) = [] \<and>
   getOrderedTransactionsCache (dropGetOrderedTransactionsCache m) = None \<and>
   allSignedTransactions (snd (getOrderedTransactions v)) = allSignedTransactions v \<and>
   fst ` set (allSignedTransactions m) \<subseteq> fst ` set (allSignedTransactions (fst (snd (loadMore e m))))"
proof -
  have d: "allSignedTransactions (dropGetOrderedTransactionsCache m) = allSignedTransactions m \<and>
   allTransactions (dropGetOrderedTransactionsCache m) = [] \<and>
   inorderTransactionHashes (dropGetOrderedTransactionsCache m) = [] \<and>
   getOrderedTransactionsCache (dropGetOrderedTransactionsCache m) = None"
    by (simp add: dropGetOrderedTransactionsCache_def)
  have g: "allSignedTransactions (snd (getOrderedTransactions v)) = allSignedTransactions v"
    by (simp add: getOrderedTransactions_def orderedTransactions_def Let_def case_prod_beta
             split: option.splits)
  have l: "fst ` set (allSignedTransactions m)
             \<subseteq> fst ` set (allSignedTransactions (fst (snd (loadMore e m))))"
  proof (cases "lock m")
    case True
    then show ?thesis by (simp add: loadMore_locked)
  next
    case unlocked: False
    show ?thesis
    proof (cases "isAlchemyAvailableForNetwork e")
      case (Inl msg)
      with unlocked show ?thesis by (simp add: loadMore_availability_rejects)
    next
      case (Inr available)
      show ?thesis
      proof (cases available)
        case False
        with unlocked Inr show ?thesis by (simp add: loadMore_unavailable)
      next
        case True
        with Inr have av: "isAlchemyAvailableForNetwork e = Inr True" by simp
        show ?thesis
        proof (cases "promiseAll e (fst (pagePromise e (nextIncomingPage m) (incomingRequest m)))
                          (fst (pagePromise e (nextOutgoingPage m) (outgoingRequest m)))")
          case (Inl msg)
          from loadMore_fetch_rejects [OF unlocked av Inl] show ?thesis by simp
        next
          case (Inr p)
          obtain ri ro where p: "p = (ri, ro)" by (cases p)
          let ?m2 = "m\<lparr>lock := True, nextIncomingPage := cursorOf (pageKey ri),
                             nextOutgoingPage := cursorOf (pageKey ro)\<rparr>"
          obtain r m3 c3 where mf:
            "mergeFetched e ?m2 (transfers ri) (transfers ro) = (r, m3, c3)"
            by (metis prod_cases3)
          from loadMore_fetched [OF unlocked av Inr [unfolded p] mf]
          have "fst (snd (loadMore e m)) = m3" by simp
          with mergeFetched_signed [OF mf] show ?thesis by simp
        qed
      qed
    qed
  qed
  from d g l show ?thesis by simp
qed

lemma loadMore_Returned_unlocked:
  assumes "\<not> lock m" and "fst (loadMore e m) = Returned"
  shows "\<not> lock (fst (snd (loadMore e m)))"
proof -
  obtain m' cs where l: "loadMore e m = (Returned, m', cs)"
    using assms(2) by (cases "loadMore e m") auto
  from loadMore_Returned_cases [OF l] assms(1)
  have "m' = m \<or> (\<exists>(ri :: fetch_response) (ro :: fetch_response) c3.
        mergeFetched e (m\<lparr>lock := True, nextIncomingPage := cursorOf (pageKey ri),
                             nextOutgoingPage := cursorOf (pageKey ro)\<rparr>)
               (transfers ri) (transfers ro) = (Returned, m', c3))"
    by auto
  then have "\<not> lock m'"
  proof (elim disjE exE)
    assume "m' = m"
    with assms(1) show ?thesis by simp
  next
    fix ri ro :: fetch_response and c3
    assume "mergeFetched e (m\<lparr>lock := True, nextIncomingPage := cursorOf (pageKey ri),
                             nextOutgoingPage := cursorOf (pageKey ro)\<rparr>)
               (transfers ri) (transfers ro) = (Returned, m', c3)"
    from mergeFetched_Returned [OF this] show ?thesis by auto
  qed
  with l show ?thesis by simp
qed

text \<open>
  C5 (as amended). A call of \<^verbatim>\<open>loadMore()\<close> that finds the lock held returns at once and
  changes nothing, so the lock stays held. A call that finds the lock free leaves it free
  when it returns (the normal end and the early return for an unavailable remote source)
  and when a page fetch rejects.
\<close>

theorem lock_after_loadMore:
  "(lock m \<longrightarrow> loadMore e m = (Returned, m, [])) \<and>
   (\<not> lock m \<longrightarrow>
      (fst (loadMore e m) = Returned \<longrightarrow> \<not> lock (fst (snd (loadMore e m)))) \<and>
      (isAlchemyAvailableForNetwork e = Inr False \<longrightarrow>
         fst (loadMore e m) = Returned \<and> \<not> lock (fst (snd (loadMore e m)))) \<and>
      (isAlchemyAvailableForNetwork e = Inr True \<and>
       ((nextIncomingPage m \<noteq> Null \<and> isl (getAssetTransfersForNetwork e (incomingRequest m))) \<or>
        (nextOutgoingPage m \<noteq> Null \<and> isl (getAssetTransfersForNetwork e (outgoingRequest m))))
       \<longrightarrow> fst (loadMore e m) \<noteq> Returned \<and> \<not> lock (fst (snd (loadMore e m)))))"
proof -
  have a: "loadMore e m = (Returned, m, [])" if "lock m"
    using that by (rule loadMore_locked)
  have b: "\<not> lock (fst (snd (loadMore e m)))" if "\<not> lock m" "fst (loadMore e m) = Returned"
    using that by (rule loadMore_Returned_unlocked)
  have c: "fst (loadMore e m) = Returned \<and> \<not> lock (fst (snd (loadMore e m)))"
    if "\<not> lock m" "isAlchemyAvailableForNetwork e = Inr False"
    using that by (simp add: loadMore_unavailable)
  have d: "fst (loadMore e m) \<noteq> Returned \<and> \<not> lock (fst (snd (loadMore e m)))"
    if u: "\<not> lock m" and av: "isAlchemyAvailableForNetwork e = Inr True"
      and rej: "(nextIncomingPage m \<noteq> Null \<and> isl (getAssetTransfersForNetwork e (incomingRequest m))) \<or>
        (nextOutgoingPage m \<noteq> Null \<and> isl (getAssetTransfersForNetwork e (outgoingRequest m)))"
  proof -
    let ?a = "fst (pagePromise e (nextIncomingPage m) (incomingRequest m))"
    let ?b = "fst (pagePromise e (nextOutgoingPage m) (outgoingRequest m))"
    from rej have "isl ?a \<or> isl ?b" by (auto simp: pagePromise_def)
    from promiseAll_rejects [OF this, of e] obtain cause where
      p: "promiseAll e ?a ?b = Inl cause" by blast
    from loadMore_fetch_rejects [OF u av p] u show ?thesis by simp
  qed
  from a b c d show ?thesis by blast
qed

theorem lock_after_loadMore_witness:
  "lock (sampleManager\<lparr>lock := True\<rparr>) \<and>
   loadMore sampleEnv (sampleManager\<lparr>lock := True\<rparr>)
     = (Returned, sampleManager\<lparr>lock := True\<rparr>, []) \<and>
   \<not> lock sampleManager \<and>
   fst (loadMore sampleEnv sampleManager) = Returned \<and>
   \<not> lock (fst (snd (loadMore sampleEnv sampleManager))) \<and>
   isAlchemyAvailableForNetwork sampleRejectingEnv = Inr True \<and>
   nextOutgoingPage sampleManager \<noteq> Null \<and>
   isl (getAssetTransfersForNetwork sampleRejectingEnv (outgoingRequest sampleManager)) \<and>
   fst (loadMore sampleRejectingEnv sampleManager) \<noteq> Returned \<and>
   \<not> lock (fst (snd (loadMore sampleRejectingEnv sampleManager)))"
proof -
  have h1: "lock (sampleManager\<lparr>lock := True\<rparr>)" by simp
  have h2: "\<not> lock sampleManager" by (simp add: sampleManager_def initial_def)
  have h3: "fst (loadMore sampleEnv sampleManager) = Returned" by code_simp
  have h4: "isAlchemyAvailableForNetwork sampleRejectingEnv = Inr True"
    "nextOutgoingPage sampleManager \<noteq> Null"
    "isl (getAssetTransfersForNetwork sampleRejectingEnv (outgoingRequest sampleManager))"
    by (simp_all add: sampleManager_def sampleRejectingEnv_def sampleEnv_def initial_def
          outgoingRequest_def)
  from lock_after_loadMore [of "sampleManager\<lparr>lock := True\<rparr>" sampleEnv]
    lock_after_loadMore [of sampleManager sampleEnv]
    lock_after_loadMore [of sampleManager sampleRejectingEnv]
    h1 h2 h3 h4
  show ?thesis by simp
qed

text \<open>
  The already-locked call returns with the lock still held.
\<close>

theorem locked_call_keeps_lock:
  "fst (loadMore sampleEnv (sampleManager\<lparr>lock := True\<rparr>)) = Returned \<and>
   lock (fst (snd (loadMore sampleEnv (sampleManager\<lparr>lock := True\<rparr>))))"
  by (simp add: loadMore_def)

text \<open>
  The statements after the \<^verbatim>\<open>try\<close> block have no handler: when the batch fetch of signed
  details rejects, or when the comparator throws while a transfer is enqueued, the
  exception leaves \<^verbatim>\<open>loadMore()\<close> with the lock held, and every later call is a no-op.
\<close>

lemma batch_rejection_keeps_lock:
  "fst (loadMore sampleBatchRejectingEnv sampleManager) = Thrown (RemoteError ''rate limit'') \<and>
   lock (fst (snd (loadMore sampleBatchRejectingEnv sampleManager)))"
  by code_simp

lemma enqueue_exception_keeps_lock:
  "fst (loadMore sampleMalformedEnv sampleManager) \<noteq> Returned \<and>
   lock (fst (snd (loadMore sampleMalformedEnv sampleManager)))"
  by code_simp

lemma loadMore_shape:
  assumes u: "\<not> lock m" and av: "isAlchemyAvailableForNetwork e = Inr True"
  shows "(\<exists>msg. loadMore e m =
            (Thrown (FetchError (''Failed to fetch transactions: '' @ msg)), m,
             CheckAvailable # snd (pagePromise e (nextIncomingPage m) (incomingRequest m))
               @ snd (pagePromise e (nextOutgoingPage m) (outgoingRequest m)))) \<or>
         (\<exists>ri ro r m3 c3.
            fst (pagePromise e (nextIncomingPage m) (incomingRequest m)) = Inr ri \<and>
            fst (pagePromise e (nextOutgoingPage m) (outgoingRequest m)) = Inr ro \<and>
            allTransfers e m = transfers ri @ transfers ro \<and>
            mergeFetched e (m\<lparr>lock := True, nextIncomingPage := cursorOf (pageKey ri),
                                 nextOutgoingPage := cursorOf (pageKey ro)\<rparr>)
              (transfers ri) (transfers ro) = (r, m3, c3) \<and>
            loadMore e m =
              (r, m3,
               CheckAvailable # snd (pagePromise e (nextIncomingPage m) (incomingRequest m))
                 @ snd (pagePromise e (nextOutgoingPage m) (outgoingRequest m)) @ c3))"
proof (cases "promiseAll e (fst (pagePromise e (nextIncomingPage m) (incomingRequest m)))
                  (fst (pagePromise e (nextOutgoingPage m) (outgoingRequest m)))")
  case (Inl msg)
  from loadMore_fetch_rejects [OF u av Inl] show ?thesis by blast
next
  case (Inr p)
  obtain ri ro where p: "p = (ri, ro)" by (cases p)
  let ?m2 = "m\<lparr>lock := True, nextIncomingPage := cursorOf (pageKey ri),
                     nextOutgoingPage := cursorOf (pageKey ro)\<rparr>"
  obtain r m3 c3 where mf: "mergeFetched e ?m2 (transfers ri) (transfers ro) = (r, m3, c3)"
    by (metis prod_cases3)
  note l = loadMore_fetched [OF u av Inr [unfolded p] mf]
  from promiseAll_resolves [OF Inr [unfolded p]]
  have pr: "fst (pagePromise e (nextIncomingPage m) (incomingRequest m)) = Inr ri"
    "fst (pagePromise e (nextOutgoingPage m) (outgoingRequest m)) = Inr ro" by simp_all
  have at: "allTransfers e m = transfers ri @ transfers ro"
    using Inr p by (simp add: allTransfers_def)
  from pr at mf l show ?thesis by blast
qed

lemma loadMore_pageRequests:
  assumes u: "\<not> lock m" and av: "isAlchemyAvailableForNetwork e = Inr True"
  shows "pageRequests (snd (snd (loadMore e m))) =
           (if nextIncomingPage m = Null then [] else [incomingRequest m]) @
           (if nextOutgoingPage m = Null then [] else [outgoingRequest m])"
proof -
  from loadMore_shape [OF u av] show ?thesis
  proof (elim disjE exE conjE)
    fix msg
    assume "loadMore e m =
            (Thrown (FetchError (''Failed to fetch transactions: '' @ msg)), m,
             CheckAvailable # snd (pagePromise e (nextIncomingPage m) (incomingRequest m))
               @ snd (pagePromise e (nextOutgoingPage m) (outgoingRequest m)))"
    then show ?thesis by (simp add: pagePromise_calls)
  next
    fix ri ro :: fetch_response and r and m3 :: "'a manager" and c3
    assume mf: "mergeFetched e (m\<lparr>lock := True, nextIncomingPage := cursorOf (pageKey ri),
                                 nextOutgoingPage := cursorOf (pageKey ro)\<rparr>)
              (transfers ri) (transfers ro) = (r, m3, c3)"
      and l: "loadMore e m =
              (r, m3,
               CheckAvailable # snd (pagePromise e (nextIncomingPage m) (incomingRequest m))
                 @ snd (pagePromise e (nextOutgoingPage m) (outgoingRequest m)) @ c3)"
    from mergeFetched_requests(1) [OF mf] l show ?thesis
      by (simp add: pagePromise_calls)
  qed
qed

lemma loadMore_exhausted_stays:
  assumes u: "\<not> lock m" and av: "isAlchemyAvailableForNetwork e = Inr True"
  shows "(nextIncomingPage m = Null \<longrightarrow> nextIncomingPage (fst (snd (loadMore e m))) = Null) \<and>
         (nextOutgoingPage m = Null \<longrightarrow> nextOutgoingPage (fst (snd (loadMore e m))) = Null)"
proof -
  from loadMore_shape [OF u av] show ?thesis
  proof (elim disjE exE conjE)
    fix msg
    assume "loadMore e m =
            (Thrown (FetchError (''Failed to fetch transactions: '' @ msg)), m,
             CheckAvailable # snd (pagePromise e (nextIncomingPage m) (incomingRequest m))
               @ snd (pagePromise e (nextOutgoingPage m) (outgoingRequest m)))"
    then show ?thesis by simp
  next
    fix ri ro :: fetch_response and r and m3 :: "'a manager" and c3
    assume pi: "fst (pagePromise e (nextIncomingPage m) (incomingRequest m)) = Inr ri"
      and po: "fst (pagePromise e (nextOutgoingPage m) (outgoingRequest m)) = Inr ro"
      and mf: "mergeFetched e (m\<lparr>lock := True, nextIncomingPage := cursorOf (pageKey ri),
                                 nextOutgoingPage := cursorOf (pageKey ro)\<rparr>)
              (transfers ri) (transfers ro) = (r, m3, c3)"
      and l: "loadMore e m =
              (r, m3,
               CheckAvailable # snd (pagePromise e (nextIncomingPage m) (incomingRequest m))
                 @ snd (pagePromise e (nextOutgoingPage m) (outgoingRequest m)) @ c3)"
    from mergeFetched_cursors [OF mf]
    have c: "nextIncomingPage m3 = cursorOf (pageKey ri)" "nextOutgoingPage m3 = cursorOf (pageKey ro)"
      by simp_all
    have "nextIncomingPage m = Null \<longrightarrow> pageKey ri = None"
      using pi by (auto simp: pagePromise_exhausted)
    moreover have "nextOutgoingPage m = Null \<longrightarrow> pageKey ro = None"
      using po by (auto simp: pagePromise_exhausted)
    ultimately show ?thesis using c l by (simp add: cursorOf_def)
  qed
qed

text \<open>
  C6 (as amended). In a call of \<^verbatim>\<open>loadMore()\<close> that finds the lock free and the remote source
  available, each feed is treated by its own cursor: for a \<^verbatim>\<open>null\<close> cursor no page is
  requested and the cursor is \<^verbatim>\<open>null\<close> afterwards; for an \<^verbatim>\<open>undefined\<close> cursor one page is
  requested with no page key (the first page); for a cursor holding a non-empty key one
  page is requested with exactly that key; a cursor holding the empty string is requested
  with no page key, as \<^verbatim>\<open>undefined\<close> is.
\<close>

theorem page_fetch_follows_cursor:
  assumes "\<not> lock m" and "isAlchemyAvailableForNetwork e = Inr True"
  shows "filter (\<lambda>req. req_toAddress req \<noteq> None) (pageRequests (snd (snd (loadMore e m)))) =
           (case nextIncomingPage m of
              Null \<Rightarrow> []
            | Undefined \<Rightarrow>
                [\<lparr> req_toAddress = Some (walletAddress m), req_fromAddress = None,
                   req_pageKey = None, req_maxCount = pageSize m \<rparr>]
            | Token t \<Rightarrow>
                [\<lparr> req_toAddress = Some (walletAddress m), req_fromAddress = None,
                   req_pageKey = (if t = [] then None else Some t),
                   req_maxCount = pageSize m \<rparr>]) \<and>
         filter (\<lambda>req. req_fromAddress req \<noteq> None) (pageRequests (snd (snd (loadMore e m)))) =
           (case nextOutgoingPage m of
              Null \<Rightarrow> []
            | Undefined \<Rightarrow>
                [\<lparr> req_toAddress = None, req_fromAddress = Some (walletAddress m),
                   req_pageKey = None, req_maxCount = pageSize m \<rparr>]
            | Token t \<Rightarrow>
                [\<lparr> req_toAddress = None, req_fromAddress = Some (walletAddress m),
                   req_pageKey = (if t = [] then None else Some t),
                   req_maxCount = pageSize m \<rparr>]) \<and>
         (nextIncomingPage m = Null \<longrightarrow> nextIncomingPage (fst (snd (loadMore e m))) = Null) \<and>
         (nextOutgoingPage m = Null \<longrightarrow> nextOutgoingPage (fst (snd (loadMore e m))) = Null)"
proof -
  note reqs = loadMore_pageRequests [OF assms]
  have i: "filter (\<lambda>req. req_toAddress req \<noteq> None) (pageRequests (snd (snd (loadMore e m)))) =
           (case nextIncomingPage m of
              Null \<Rightarrow> []
            | Undefined \<Rightarrow>
                [\<lparr> req_toAddress = Some (walletAddress m), req_fromAddress = None,
                   req_pageKey = None, req_maxCount = pageSize m \<rparr>]
            | Token t \<Rightarrow>
                [\<lparr> req_toAddress = Some (walletAddress m), req_fromAddress = None,
                   req_pageKey = (if t = [] then None else Some t),
                   req_maxCount = pageSize m \<rparr>])"
    unfolding reqs
    by (simp add: incomingRequest_def outgoingRequest_def pageKeyArg_def split: cursor.splits)
  have o: "filter (\<lambda>req. req_fromAddress req \<noteq> None) (pageRequests (snd (snd (loadMore e m)))) =
           (case nextOutgoingPage m of
              Null \<Rightarrow> []
            | Undefined \<Rightarrow>
                [\<lparr> req_toAddress = None, req_fromAddress = Some (walletAddress m),
                   req_pageKey = None, req_maxCount = pageSize m \<rparr>]
            | Token t \<Rightarrow>
                [\<lparr> req_toAddress = None, req_fromAddress = Some (walletAddress m),
                   req_pageKey = (if t = [] then None else Some t),
                   req_maxCount = pageSize m \<rparr>])"
    unfolding reqs
    by (simp add: incomingRequest_def outgoingRequest_def pageKeyArg_def split: cursor.splits)
  from i o loadMore_exhausted_stays [OF assms] show ?thesis by blast
qed

theorem page_fetch_follows_cursor_witness:
  "\<not> lock (sampleManager\<lparr>nextIncomingPage := Token ''next'', nextOutgoingPage := Null\<rparr>) \<and>
   isAlchemyAvailableForNetwork sampleLastEnv = Inr True \<and>
   pageRequests (snd (snd (loadMore sampleLastEnv
      (sampleManager\<lparr>nextIncomingPage := Token ''next'', nextOutgoingPage := Null\<rparr>)))) =
     [\<lparr> req_toAddress = Some ''0xb'', req_fromAddress = None,
        req_pageKey = Some ''next'', req_maxCount = 20 \<rparr>] \<and>
   nextOutgoingPage (fst (snd (loadMore sampleLastEnv
      (sampleManager\<lparr>nextIncomingPage := Token ''next'', nextOutgoingPage := Null\<rparr>)))) = Null"
proof -
  let ?m = "sampleManager\<lparr>nextIncomingPage := Token ''next'', nextOutgoingPage := Null\<rparr>"
  have h: "\<not> lock ?m" "isAlchemyAvailableForNetwork sampleLastEnv = Inr True"
    by (simp_all add: sampleManager_def initial_def sampleLastEnv_def sampleEnv_def)
  have ev: "pageRequests (snd (snd (loadMore sampleLastEnv ?m))) =
     [\<lparr> req_toAddress = Some ''0xb'', req_fromAddress = None,
        req_pageKey = Some ''next'', req_maxCount = 20 \<rparr>]"
    by code_simp
  have o: "nextOutgoingPage ?m = Null" by simp
  from page_fetch_follows_cursor [OF h] h ev o show ?thesis by simp
qed

text \<open>
  A cursor holding the empty string is not \<^verbatim>\<open>null\<close>, so the page is fetched, but
  \<^verbatim>\<open>this._nextIncomingPage || undefined\<close> passes \<^verbatim>\<open>undefined\<close> as the page key, not the token.
\<close>

theorem empty_token_fetches_first_page:
  "pageRequests (snd (snd (loadMore sampleLastEnv
      (sampleManager\<lparr>nextIncomingPage := Token [], nextOutgoingPage := Null\<rparr>)))) =
     [\<lparr> req_toAddress = Some ''0xb'', req_fromAddress = None,
        req_pageKey = None, req_maxCount = 20 \<rparr>]"
  by code_simp

lemma loadMore_batchRequests:
  assumes u: "\<not> lock m" and av: "isAlchemyAvailableForNetwork e = Inr True"
  shows "batchRequests (snd (snd (loadMore e m))) = [] \<or>
         batchRequests (snd (snd (loadMore e m))) =
           [filter (\<lambda>h. map_of (allSignedTransactions m) h = None)
              (filter nonEmptyHash (map hash (allTransfers e m)))]"
    and "fst (loadMore e m) = Returned \<Longrightarrow>
         batchRequests (snd (snd (loadMore e m))) =
           (if filter nonEmptyHash (map hash (allTransfers e m)) = [] then []
            else [filter (\<lambda>h. map_of (allSignedTransactions m) h = None)
                    (filter nonEmptyHash (map hash (allTransfers e m)))])"
    and "fst (loadMore e m) = Returned \<Longrightarrow> queueOrdered (transactionQueue m) \<Longrightarrow>
         set (transactionQueue (fst (snd (loadMore e m))))
           = set (allTransfers e m) \<union> set (transactionQueue m)"
proof -
  from loadMore_shape [OF u av]
  have "(batchRequests (snd (snd (loadMore e m))) = [] \<or>
         batchRequests (snd (snd (loadMore e m))) =
           [filter (\<lambda>h. map_of (allSignedTransactions m) h = None)
              (filter nonEmptyHash (map hash (allTransfers e m)))]) \<and>
        (fst (loadMore e m) = Returned \<longrightarrow>
         batchRequests (snd (snd (loadMore e m))) =
           (if filter nonEmptyHash (map hash (allTransfers e m)) = [] then []
            else [filter (\<lambda>h. map_of (allSignedTransactions m) h = None)
                    (filter nonEmptyHash (map hash (allTransfers e m)))])) \<and>
        (fst (loadMore e m) = Returned \<longrightarrow> queueOrdered (transactionQueue m) \<longrightarrow>
         set (transactionQueue (fst (snd (loadMore e m))))
           = set (allTransfers e m) \<union> set (transactionQueue m))"
  proof (elim disjE exE conjE)
    fix msg
    assume "loadMore e m =
            (Thrown (FetchError (''Failed to fetch transactions: '' @ msg)), m,
             CheckAvailable # snd (pagePromise e (nextIncomingPage m) (incomingRequest m))
               @ snd (pagePromise e (nextOutgoingPage m) (outgoingRequest m)))"
    then show ?thesis by (simp add: pagePromise_calls)
  next
    fix ri ro :: fetch_response and r and m3 :: "'a manager" and c3
    assume at: "allTransfers e m = transfers ri @ transfers ro"
      and mf: "mergeFetched e (m\<lparr>lock := True, nextIncomingPage := cursorOf (pageKey ri),
                                 nextOutgoingPage := cursorOf (pageKey ro)\<rparr>)
              (transfers ri) (transfers ro) = (r, m3, c3)"
      and l: "loadMore e m =
              (r, m3,
               CheckAvailable # snd (pagePromise e (nextIncomingPage m) (incomingRequest m))
                 @ snd (pagePromise e (nextOutgoingPage m) (outgoingRequest m)) @ c3)"
    have b: "batchRequests (snd (snd (loadMore e m))) = batchRequests c3"
      using l by (simp add: pagePromise_calls)
    note mr = mergeFetched_requests(2,3) [OF mf, folded at, simplified]
    have q: "set (transactionQueue m3) = set (allTransfers e m) \<union> set (transactionQueue m)"
      if "r = Returned" "queueOrdered (transactionQueue m)"
    proof -
      from mergeFetched_Returned [OF mf [unfolded that(1)]] obtain q where
        eq: "enqueueAll (transfers ri @ transfers ro) (transactionQueue m) = (None, q)"
        and "transactionQueue m3 = q" by auto
      with enqueueAll_ok [OF eq that(2)] at show ?thesis by simp
    qed
    from mr b q l show ?thesis by auto
  qed
  then show "batchRequests (snd (snd (loadMore e m))) = [] \<or>
         batchRequests (snd (snd (loadMore e m))) =
           [filter (\<lambda>h. map_of (allSignedTransactions m) h = None)
              (filter nonEmptyHash (map hash (allTransfers e m)))]"
    and "fst (loadMore e m) = Returned \<Longrightarrow>
         batchRequests (snd (snd (loadMore e m))) =
           (if filter nonEmptyHash (map hash (allTransfers e m)) = [] then []
            else [filter (\<lambda>h. map_of (allSignedTransactions m) h = None)
                    (filter nonEmptyHash (map hash (allTransfers e m)))])"
    and "fst (loadMore e m) = Returned \<Longrightarrow> queueOrdered (transactionQueue m) \<Longrightarrow>
         set (transactionQueue (fst (snd (loadMore e m))))
           = set (allTransfers e m) \<union> set (transactionQueue m)"
    by blast+
qed

text \<open>
  C8 (as amended). In a call of \<^verbatim>\<open>loadMore()\<close> that returns (lock free, remote source
  available), the batch fetch of signed details is called when some freshly fetched
  transfer has a non-empty hash, and the list it is given is the hashes of the freshly
  fetched transfers in fetch order (incoming, then outgoing), without the missing and
  empty ones and without those already keys of the signed-details map. The list is not
  deduplicated: a hash has one occurrence for each fresh transfer that carries it.
\<close>

theorem batch_hashes_of_fetched_transfers:
  assumes "\<not> lock m" and "isAlchemyAvailableForNetwork e = Inr True"
    and "fst (loadMore e m) = Returned"
  shows "batchRequests (snd (snd (loadMore e m))) =
           (if filter nonEmptyHash (map hash (allTransfers e m)) = [] then []
            else [filter (\<lambda>h. nonEmptyHash h \<and> map_of (allSignedTransactions m) h = None)
                    (map hash (allTransfers e m))])"
  using loadMore_batchRequests(2) [OF assms] by simp

theorem batch_hashes_of_fetched_transfers_witness:
  "\<not> lock sampleManager \<and> isAlchemyAvailableForNetwork sampleEnv = Inr True \<and>
   fst (loadMore sampleEnv sampleManager) = Returned \<and>
   map hash (allTransfers sampleEnv sampleManager) =
     [HString ''0x01'', HString ''0x02'', HString [], HString ''0x01'', HString ''0x03''] \<and>
   batchRequests (snd (snd (loadMore sampleEnv sampleManager))) =
     [filter (\<lambda>h. nonEmptyHash h \<and> map_of (allSignedTransactions sampleManager) h = None)
        (map hash (allTransfers sampleEnv sampleManager))]"
proof -
  have h: "\<not> lock sampleManager" "isAlchemyAvailableForNetwork sampleEnv = Inr True"
    by (simp_all add: sampleManager_def initial_def sampleEnv_def)
  have r: "fst (loadMore sampleEnv sampleManager) = Returned" by code_simp
  have t: "map hash (allTransfers sampleEnv sampleManager) =
     [HString ''0x01'', HString ''0x02'', HString [], HString ''0x01'', HString ''0x03'']"
    by code_simp
  have ne: "filter nonEmptyHash (map hash (allTransfers sampleEnv sampleManager)) \<noteq> []"
    unfolding t by (simp add: nonEmptyHash_def)
  from batch_hashes_of_fetched_transfers [OF h r] ne h r t show ?thesis by simp
qed

text \<open>
  Two freshly fetched transfers share the hash \<^verbatim>\<open>0x01\<close> (the transaction is in both feeds),
  and the batch fetch is given that hash twice.
\<close>

theorem batch_hashes_repeat:
  "fst (loadMore sampleEnv sampleManager) = Returned \<and>
   batchRequests (snd (snd (loadMore sampleEnv sampleManager))) =
     [[HString ''0x01'', HString ''0x02'', HString ''0x01'', HString ''0x03'']]"
  by code_simp

lemma distinct_map_filter_le1:
  "distinct (map f xs) \<Longrightarrow> length (filter (\<lambda>x. f x = v) xs) \<le> 1"
proof (induction xs)
  case Nil
  show ?case by simp
next
  case (Cons x xs)
  show ?case
  proof (cases "f x = v")
    case True
    with Cons.prems have "v \<notin> f ` set xs" by simp
    then have "\<forall>y\<in>set xs. f y \<noteq> v" by (metis imageI)
    then have "filter (\<lambda>x. f x = v) xs = []" by (simp add: filter_empty_conv)
    with True show ?thesis by simp
  next
    case False
    with Cons show ?thesis by simp
  qed
qed

lemma distinct_count_one: "distinct xs \<Longrightarrow> x \<in> set xs \<Longrightarrow> count_list xs x = 1"
  by (induction xs) (auto simp: count_list_0_iff)

lemma ordered_elements:
  assumes c: "cacheCoherent m" and r: "getOrderedTransactions m = (res, m')"
    and ft: "ft \<in> set res"
  shows "\<exists>h. ft_hash ft = Some h \<and>
           ft_transfers ft = filter (\<lambda>tx. hash tx = h) (transactionQueue m) \<and>
           ft_signedTransaction ft = map_of (allSignedTransactions m) h"
proof -
  note g = getOrdered_result(1) [OF c r] and res = getOrdered_result(2) [OF c r]
  from ft obtain h where h: "h \<in> set (take (nat (maxSafeIndex m')) (inorderTransactionHashes m'))"
    and b: "buildFullTransaction m' h = Some ft"
    unfolding res by (auto simp: List.map_filter_def)
  from h have "h \<in> set (inorderTransactionHashes m')" by (rule in_set_takeD)
  from buildFullTransaction_grouped [OF g this] b getOrdered_frame(5) [OF c r]
  show ?thesis by auto
qed

lemma missing_at_most_three:
  assumes "distinct (map ft_hash res)"
  shows "length (filter (\<lambda>ft. ft_hash ft \<in> {Some HUndefined, Some HNull, Some (HString [])}) res) \<le> 3"
proof -
  let ?K = "{Some HUndefined, Some HNull, Some (HString [])}"
  let ?xs = "filter (\<lambda>ft. ft_hash ft \<in> ?K) res"
  from assms have d: "distinct (map ft_hash ?xs)" by (rule distinct_map_filter)
  have "set (map ft_hash ?xs) \<subseteq> ?K" by auto
  then have "card (set (map ft_hash ?xs)) \<le> card ?K" by (intro card_mono) simp_all
  also have "card ?K \<le> 3" by (simp add: card_insert_if)
  finally have "card (set (map ft_hash ?xs)) \<le> 3" .
  with distinct_card [OF d] show ?thesis by simp
qed

text \<open>
  C10 (as amended). Take a state reached by successful \<^verbatim>\<open>loadMore()\<close> calls, one more
  successful \<^verbatim>\<open>loadMore()\<close> with the remote source available, and a hash value \<open>h\<close> that is
  \<^verbatim>\<open>undefined\<close>, \<^verbatim>\<open>null\<close> or the empty string. Then \<open>h\<close> is in no list given to the batch fetch
  of signed details and is no key of the signed-details map; every fetched transfer,
  whatever its hash, is in the queue; and in \<^verbatim>\<open>getOrderedTransactions()\<close> the transfers of the
  queue that carry the same value \<open>h\<close> form one group under the key \<open>h\<close>, which has one place
  in the ordered hash list and gives at most one Full Transaction, without signed details.
  The three values are three different keys, so the transfers with a missing or empty hash
  make up to three groups and up to three Full Transactions, one for each value.
\<close>

theorem missing_hash_transfers_grouped_per_key:
  assumes "run ops (initial net wallet contract pSize) = Some m"
    and "isAlchemyAvailableForNetwork e = Inr True"
    and "loadMore e m = (Returned, m1, cs)"
    and "getOrderedTransactions m1 = (res, m2)"
    and "\<not> nonEmptyHash h"
  shows "(\<forall>hs\<in>set (batchRequests cs). h \<notin> set hs) \<and>
         map_of (allSignedTransactions m1) h = None \<and>
         set (allTransfers e m) \<subseteq> set (transactionQueue m1) \<and>
         (h \<in> hash ` set (transactionQueue m1) \<longrightarrow>
            count_list (inorderTransactionHashes m2) h = 1 \<and>
            map_of (allTransactions m2) h
              = Some (filter (\<lambda>tx. hash tx = h) (transactionQueue m1))) \<and>
         length (filter (\<lambda>ft. ft_hash ft = Some h) res) \<le> 1 \<and>
         (\<forall>ft\<in>set res. ft_hash ft = Some h \<longrightarrow>
            ft_transfers ft = filter (\<lambda>tx. hash tx = h) (transactionQueue m1) \<and>
            ft_signedTransaction ft = None) \<and>
         length (filter (\<lambda>ft. ft_hash ft \<in> {Some HUndefined, Some HNull, Some (HString [])}) res)
           \<le> 3"
proof -
  from run_initial_invariant [OF assms(1)] have inv: "invariant m" .
  then have u: "\<not> lock m" and qo: "queueOrdered (transactionQueue m)"
    by (simp_all add: invariant_def)
  from invariant_loadMore [OF inv assms(3)] have inv1: "invariant m1" .
  then have c1: "cacheCoherent m1"
    and keys: "list_all nonEmptyHash (map fst (allSignedTransactions m1))"
    by (simp_all add: invariant_def)
  note av = assms(2) and r = assms(4)
  from assms(3) have l: "fst (loadMore e m) = Returned" "fst (snd (loadMore e m)) = m1"
    "snd (snd (loadMore e m)) = cs" by simp_all
  have a: "\<forall>hs\<in>set (batchRequests cs). h \<notin> set hs"
    using loadMore_batchRequests(1) [OF u av] assms(5) unfolding l(3) by auto
  have b: "map_of (allSignedTransactions m1) h = None"
  proof -
    from keys assms(5) have "h \<notin> fst ` set (allSignedTransactions m1)"
      by (auto simp: list_all_iff)
    then show ?thesis by (simp add: map_of_eq_None_iff)
  qed
  have q: "set (allTransfers e m) \<subseteq> set (transactionQueue m1)"
    using loadMore_batchRequests(3) [OF u av l(1) qo] unfolding l(2) by simp
  note g = getOrdered_result(1) [OF c1 r]
  have d: "count_list (inorderTransactionHashes m2) h = 1 \<and>
            map_of (allTransactions m2) h
              = Some (filter (\<lambda>tx. hash tx = h) (transactionQueue m1))"
    if "h \<in> hash ` set (transactionQueue m1)"
  proof -
    from g that have mem: "h \<in> set (inorderTransactionHashes m2)"
      by (simp add: groupedFrom_def)
    from g have "distinct (inorderTransactionHashes m2)" by (simp add: groupedFrom_def)
    from distinct_count_one [OF this mem]
    have "count_list (inorderTransactionHashes m2) h = 1" .
    moreover from g mem have "map_of (allTransactions m2) h
              = Some (filter (\<lambda>tx. hash tx = h) (transactionQueue m1))"
      by (simp add: groupedFrom_def list_all_iff)
    ultimately show ?thesis by simp
  qed
  have "distinct (map ft_hash res)"
  proof -
    from ordered_hashes(2) [OF c1 r]
    have "distinct (map Some (take (nat (maxSafeIndex m2)) (inorderTransactionHashes m2)))"
      by (simp add: distinct_map)
    with ordered_hashes(1) [OF c1 r] show ?thesis by simp
  qed
  then have f: "length (filter (\<lambda>ft. ft_hash ft = Some h) res) \<le> 1"
    and three: "length (filter (\<lambda>ft. ft_hash ft \<in> {Some HUndefined, Some HNull, Some (HString [])}) res)
           \<le> 3"
    by (rule distinct_map_filter_le1, rule missing_at_most_three)
  have t: "\<forall>ft\<in>set res. ft_hash ft = Some h \<longrightarrow>
            ft_transfers ft = filter (\<lambda>tx. hash tx = h) (transactionQueue m1) \<and>
            ft_signedTransaction ft = None"
  proof (intro ballI impI)
    fix ft assume "ft \<in> set res" "ft_hash ft = Some h"
    with ordered_elements [OF c1 r] b
    show "ft_transfers ft = filter (\<lambda>tx. hash tx = h) (transactionQueue m1) \<and>
            ft_signedTransaction ft = None"
      by fastforce
  qed
  from a b q d f t three show ?thesis by blast
qed

theorem missing_hash_transfers_grouped_per_key_witness:
  "(case run [LoadMore sampleEnv] (initial ''sepolia'' ''0xb'' None 10) of
      None \<Rightarrow> False
    | Some m \<Rightarrow>
        (case loadMore sampleMissingEnv m of
           (r, m1, cs) \<Rightarrow>
             (case getOrderedTransactions m1 of
                (res, m2) \<Rightarrow>
                  r = Returned \<and> \<not> nonEmptyHash HUndefined \<and>
                  map hash (allTransfers sampleMissingEnv m) =
                    [HUndefined, HNull, HString [], HUndefined, HString ''0x05''] \<and>
                  batchRequests cs = [[HString ''0x05'']] \<and>
                  set (allTransfers sampleMissingEnv m) \<subseteq> set (transactionQueue m1) \<and>
                  map millis (filter (\<lambda>tx. hash tx = HUndefined) (transactionQueue m1)) = [9, 6] \<and>
                  count_list (inorderTransactionHashes m2) HUndefined = 1 \<and>
                  map_of (allTransactions m2) HUndefined
                    = Some (filter (\<lambda>tx. hash tx = HUndefined) (transactionQueue m1)) \<and>
                  length (filter (\<lambda>ft. ft_hash ft = Some HUndefined) res) = 1 \<and>
                  map (\<lambda>ft. map millis (ft_transfers ft))
                    (filter (\<lambda>ft. ft_hash ft = Some HUndefined) res) = [[9, 6]] \<and>
                  map ft_signedTransaction
                    (filter (\<lambda>ft. ft_hash ft = Some HUndefined) res) = [None])))"
proof -
  let ?r = "run [LoadMore sampleEnv] (initial ''sepolia'' ''0xb'' None 10)"
  have ev: "(case ?r of None \<Rightarrow> False
    | Some m \<Rightarrow>
        (case loadMore sampleMissingEnv m of
           (r, m1, cs) \<Rightarrow>
             (case getOrderedTransactions m1 of
                (res, m2) \<Rightarrow>
                  r = Returned \<and>
                  map hash (allTransfers sampleMissingEnv m) =
                    [HUndefined, HNull, HString [], HUndefined, HString ''0x05''] \<and>
                  batchRequests cs = [[HString ''0x05'']] \<and>
                  map millis (filter (\<lambda>tx. hash tx = HUndefined) (transactionQueue m1)) = [9, 6] \<and>
                  length (filter (\<lambda>ft. ft_hash ft = Some HUndefined) res) = 1 \<and>
                  map (\<lambda>ft. map millis (ft_transfers ft))
                    (filter (\<lambda>ft. ft_hash ft = Some HUndefined) res) = [[9, 6]] \<and>
                  map ft_signedTransaction
                    (filter (\<lambda>ft. ft_hash ft = Some HUndefined) res) = [None])))"
    by code_simp
  then obtain m where m: "?r = Some m" by (cases ?r) auto
  obtain r m1 cs where l: "loadMore sampleMissingEnv m = (r, m1, cs)" by (metis prod_cases3)
  obtain res m2 where g: "getOrderedTransactions m1 = (res, m2)"
    by (cases "getOrderedTransactions m1")
  from ev m l g have r: "r = Returned"
    and q: "map millis (filter (\<lambda>tx. hash tx = HUndefined) (transactionQueue m1)) = [9, 6]"
    by simp_all
  from q have "filter (\<lambda>tx. hash tx = HUndefined) (transactionQueue m1) \<noteq> []" by auto
  then have mem: "HUndefined \<in> hash ` set (transactionQueue m1)"
    by (force simp: filter_empty_conv image_iff)
  have av: "isAlchemyAvailableForNetwork sampleMissingEnv = Inr True"
    by (simp add: sampleMissingEnv_def sampleEnv_def)
  have ne: "\<not> nonEmptyHash HUndefined" by (simp add: nonEmptyHash_def)
  from missing_hash_transfers_grouped_per_key [OF m av l [unfolded r] g ne] mem ev m l g r ne
  show ?thesis by simp
qed

text \<open>
  One page with the hashes \<^verbatim>\<open>undefined\<close>, \<^verbatim>\<open>null\<close>, the empty string and \<^verbatim>\<open>undefined\<close> again:
  the transfers with a missing or empty hash are not one group. They take three places of
  the ordered hash list and come out as three Full Transactions.
\<close>

theorem missing_hashes_form_three_groups:
  "(case loadMore sampleMissingEnv sampleManager of
      (r, m1, cs) \<Rightarrow>
        (case getOrderedTransactions m1 of
           (res, m2) \<Rightarrow>
             r = Returned \<and>
             map hash (transactionQueue m1) =
               [HUndefined, HNull, HString [], HUndefined, HString ''0x05''] \<and>
             inorderTransactionHashes m2 = [HUndefined, HNull, HString [], HString ''0x05''] \<and>
             map fst (allTransactions m2) = [HUndefined, HNull, HString [], HString ''0x05''] \<and>
             map ft_hash res =
               [Some HUndefined, Some HNull, Some (HString []), Some (HString ''0x05'')] \<and>
             map (\<lambda>ft. length (ft_transfers ft)) res = [2, 1, 1, 1]))"
  by code_simp

lemma newObjects_result:
  "newObjects vs st = (rs, st') \<Longrightarrow>
   map ((!) (objects st')) rs = vs \<and> list_all (\<lambda>r. r < length (objects st')) rs \<and>
   objects st' = objects st @ vs \<and> arrays st' = arrays st"
proof (induction vs arbitrary: st rs st')
  case Nil
  then show ?case by simp
next
  case (Cons v vs)
  let ?st1 = "st\<lparr>objects := objects st @ [v]\<rparr>"
  obtain rs1 st2 where n: "newObjects vs ?st1 = (rs1, st2)" by (cases "newObjects vs ?st1")
  with Cons.prems have rs: "rs = length (objects st) # rs1" and st': "st' = st2"
    by (simp_all add: newObject_def)
  note ih = Cons.IH [OF n]
  from ih have o2: "objects st2 = objects st @ v # vs" by simp
  from ih have m2: "map ((!) (objects st2)) rs1 = vs" by blast
  from ih have l2: "list_all (\<lambda>r. r < length (objects st2)) rs1" by blast
  from ih have a2: "arrays st2 = arrays st" by simp
  have h: "objects st2 ! length (objects st) = v" by (simp add: o2)
  have lt: "length (objects st) < length (objects st2)" by (simp add: o2)
  show ?case
    unfolding rs st' using m2 l2 a2 h lt o2 by (simp del: append_assoc)
qed

lemma elements_newArray:
  "elements (snd (newArray xs st)) a =
     (if a = length (arrays st) then xs else elements st a)"
  by (simp add: newArray_def elements_def nth_append)

lemma valueManager_fields [simp]:
  "transactionQueue (valueManager st m) = transactionQueue m"
  "allTransactions (valueManager st m) = allTransactions m"
  "inorderTransactionHashes (valueManager st m) = inorderTransactionHashes m"
  "getOrderedTransactionsCache (valueManager st m)
     = map_option (contents st) (getOrderedTransactionsCache m)"
  by (simp_all add: valueManager_def)

lemma orderedTransactions_valueManager:
  "orderedTransactions (valueManager st m) =
     (fst (orderedTransactions m), valueManager st (snd (orderedTransactions m)))"
proof -
  obtain Al Hs where f: "fold groupTransfer (toArray (transactionQueue m))
       (allTransactions m, inorderTransactionHashes m) = (Al, Hs)"
    by (cases "fold groupTransfer (toArray (transactionQueue m))
       (allTransactions m, inorderTransactionHashes m)")
  let ?m1 = "m\<lparr>allTransactions := Al, inorderTransactionHashes := Hs\<rparr>"
  have v: "(valueManager st m)\<lparr>allTransactions := Al, inorderTransactionHashes := Hs\<rparr>
           = valueManager st ?m1"
    by (simp add: valueManager_def)
  have b: "buildFullTransaction (valueManager st ?m1) = buildFullTransaction ?m1"
    by (rule ext) (simp add: buildFullTransaction_def valueManager_def split: option.splits)
  have s: "maxSafeIndex (valueManager st ?m1) = maxSafeIndex ?m1"
    by (simp add: maxSafeIndex_def isAtLastPage_def valueManager_def)
  have l: "orderedTransactions m =
             (List.map_filter (buildFullTransaction ?m1) (take (nat (maxSafeIndex ?m1)) Hs), ?m1)"
    using f by (simp add: orderedTransactions_def Let_def)
  have r: "orderedTransactions (valueManager st m) =
             (List.map_filter (buildFullTransaction (valueManager st ?m1))
                (take (nat (maxSafeIndex (valueManager st ?m1))) Hs), valueManager st ?m1)"
    using f by (simp add: orderedTransactions_def Let_def v)
  show ?thesis unfolding l r b s by simp
qed

lemma store_call:
  assumes al: "cacheAllocated st m"
    and call: "getOrderedTransactions_store m st = (a, m', st')"
  shows "\<exists>c. getOrderedTransactionsCache m' = Some c \<and> a \<noteq> c \<and>
           length (arrays st) \<le> a \<and> a < length (arrays st') \<and> c < length (arrays st') \<and>
           elements st' a = elements st' c \<and>
           list_all (\<lambda>r. r < length (objects st')) (elements st' c) \<and>
           length (objects st) \<le> length (objects st') \<and>
           take (length (objects st)) (objects st') = objects st \<and>
           take (length (arrays st)) (arrays st') = arrays st \<and>
           (getOrderedTransactionsCache m \<noteq> None \<longrightarrow>
              getOrderedTransactionsCache m' = getOrderedTransactionsCache m \<and>
              objects st' = objects st)"
proof (cases "getOrderedTransactionsCache m")
  case (Some c)
  with call have r: "a = length (arrays st)" "m' = m"
    "st' = st\<lparr>arrays := arrays st @ [elements st c]\<rparr>"
    by (auto simp: getOrderedTransactions_store_def newArray_def)
  from al Some have c: "c < length (arrays st)"
    "list_all (\<lambda>r. r < length (objects st)) (elements st c)"
    by (simp_all add: cacheAllocated_def)
  have e: "elements st' a = elements st c" "elements st' c = elements st c"
    using c(1) unfolding r by (simp_all add: elements_def nth_append)
  from Some c e r show ?thesis by simp
next
  case None
  obtain vals m1 where o: "orderedTransactions m = (vals, m1)"
    by (cases "orderedTransactions m")
  obtain refs st1 where n: "newObjects vals st = (refs, st1)"
    by (cases "newObjects vals st")
  note no = newObjects_result [OF n]
  from call None o n have r: "a = length (arrays st)"
    "m' = m1\<lparr>getOrderedTransactionsCache := Some (Suc (length (arrays st)))\<rparr>"
    "st' = st1\<lparr>arrays := arrays st @ [refs, refs]\<rparr>"
    using no by (auto simp: getOrderedTransactions_store_def newArray_def elements_def nth_append)
  have e: "elements st' a = refs" "elements st' (Suc (length (arrays st))) = refs"
    unfolding r by (simp_all add: elements_def nth_append)
  from no have o1: "objects st1 = objects st @ vals"
    and l1: "list_all (\<lambda>r. r < length (objects st1)) refs" by blast+
  have ob: "objects st' = objects st1" "arrays st' = arrays st @ [refs, refs]"
    unfolding r by simp_all
  have "list_all (\<lambda>r. r < length (objects st')) (elements st' (Suc (length (arrays st))))"
    unfolding e ob using l1 .
  moreover have "take (length (objects st)) (objects st') = objects st"
    unfolding ob o1 by simp
  moreover have "length (objects st) \<le> length (objects st')" unfolding ob o1 by simp
  moreover have "take (length (arrays st)) (arrays st') = arrays st" unfolding ob by simp
  moreover have "a < length (arrays st')" "Suc (length (arrays st)) < length (arrays st')"
    unfolding ob r by simp_all
  moreover have "getOrderedTransactionsCache m' = Some (Suc (length (arrays st)))"
    unfolding r by simp
  moreover have "a \<noteq> Suc (length (arrays st))" "length (arrays st) \<le> a" unfolding r by simp_all
  moreover have "elements st' a = elements st' (Suc (length (arrays st)))" unfolding e ..
  ultimately show ?thesis using None by blast
qed

lemma elements_kept:
  assumes "take (length (arrays st)) (arrays st') = arrays st" and "a < length (arrays st)"
  shows "elements st' a = elements st a"
proof -
  from assms(1) have "length (arrays st) \<le> length (arrays st')"
    by (metis length_take min.cobounded1)
  moreover from assms have "arrays st' ! a = arrays st ! a"
    by (metis nth_take)
  ultimately show ?thesis using assms(2) by (simp add: elements_def)
qed

lemma elements_writeArray:
  "a \<noteq> b \<Longrightarrow> elements (writeArray a xs st) b = elements st b"
  by (simp add: writeArray_def elements_def)

lemma contents_writeArray:
  "a \<noteq> b \<Longrightarrow> contents (writeArray a xs st) b = contents st b"
  by (simp add: contents_def elements_writeArray) (simp add: writeArray_def)

lemma store_call_allocated:
  assumes "cacheAllocated st m" and "getOrderedTransactions_store m st = (a, m', st')"
  shows "cacheAllocated st' m'"
  using store_call [OF assms] by (auto simp: cacheAllocated_def)

lemma store_refines:
  assumes al: "cacheAllocated st m"
    and call: "getOrderedTransactions_store m st = (a, m', st')"
  shows "getOrderedTransactions (valueManager st m) = (contents st' a, valueManager st' m')"
proof (cases "getOrderedTransactionsCache m")
  case (Some c)
  with call have r: "a = length (arrays st)" "m' = m"
    "st' = st\<lparr>arrays := arrays st @ [elements st c]\<rparr>"
    by (auto simp: getOrderedTransactions_store_def newArray_def)
  from al Some have c: "c < length (arrays st)" by (simp add: cacheAllocated_def)
  have e: "contents st' a = contents st c" "contents st' c = contents st c"
    using c unfolding r by (simp_all add: contents_def elements_def nth_append)
  have "valueManager st' m = valueManager st m"
    using Some e(2) by (simp add: valueManager_def)
  with Some e(1) r(2) show ?thesis by (simp add: getOrderedTransactions_def)
next
  case None
  obtain vals m1 where o: "orderedTransactions m = (vals, m1)"
    by (cases "orderedTransactions m")
  obtain refs st1 where n: "newObjects vals st = (refs, st1)"
    by (cases "newObjects vals st")
  note no = newObjects_result [OF n]
  from call None o n have r: "a = length (arrays st)"
    "m' = m1\<lparr>getOrderedTransactionsCache := Some (Suc (length (arrays st)))\<rparr>"
    "st' = st1\<lparr>arrays := arrays st @ [refs, refs]\<rparr>"
    using no by (auto simp: getOrderedTransactions_store_def newArray_def elements_def nth_append)
  from no have v: "map ((!) (objects st1)) refs = vals" by blast
  have e: "contents st' a = vals" "contents st' (Suc (length (arrays st))) = vals"
    unfolding r using v by (simp_all add: contents_def elements_def nth_append)
  have "(valueManager st m1)\<lparr>getOrderedTransactionsCache := Some vals\<rparr> = valueManager st' m'"
    using e(2) unfolding r(2) by (simp add: valueManager_def)
  moreover have "getOrderedTransactions (valueManager st m) =
      (vals, (valueManager st m1)\<lparr>getOrderedTransactionsCache := Some vals\<rparr>)"
    using None o by (simp add: getOrderedTransactions_def orderedTransactions_valueManager)
  ultimately show ?thesis using e(1) by simp
qed

text \<open>
  C7 (as amended). Two calls of \<^verbatim>\<open>getOrderedTransactions()\<close> with no \<^verbatim>\<open>loadMore()\<close> between them
  return arrays with equal contents, the contents the value-level function returns. Each
  returned array is a new array, different from the cache array and from the other
  returned array, so whatever a caller writes into a returned array itself changes
  neither the cache nor the other array. The three arrays hold the same element objects.
\<close>

theorem returned_arrays_are_shallow_copies:
  assumes "cacheAllocated st m"
    and "getOrderedTransactions_store m st = (a1, m1, st1)"
    and "getOrderedTransactions_store m1 st1 = (a2, m2, st2)"
  shows "contents st2 a1 = contents st2 a2 \<and>
         contents st2 a2 = fst (getOrderedTransactions (valueManager st m)) \<and>
         a1 \<noteq> a2 \<and>
         (\<exists>c. getOrderedTransactionsCache m2 = Some c \<and> c \<noteq> a1 \<and> c \<noteq> a2 \<and>
              elements st2 c = elements st2 a1 \<and> elements st2 c = elements st2 a2 \<and>
              (\<forall>xs. contents (writeArray a1 xs st2) c = contents st2 c \<and>
                    contents (writeArray a2 xs st2) c = contents st2 c \<and>
                    contents (writeArray a1 xs st2) a2 = contents st2 a2 \<and>
                    contents (writeArray a2 xs st2) a1 = contents st2 a1))"
proof -
  from store_call [OF assms(1,2)] obtain c where
    c1: "getOrderedTransactionsCache m1 = Some c" "a1 \<noteq> c" "a1 < length (arrays st1)"
      "c < length (arrays st1)" "elements st1 a1 = elements st1 c"
    by blast
  note al1 = store_call_allocated [OF assms(1,2)]
  from store_call [OF al1 assms(3)] c1(1) obtain c' where
    c2: "getOrderedTransactionsCache m2 = Some c'" "a2 \<noteq> c'" "length (arrays st1) \<le> a2"
      "elements st2 a2 = elements st2 c'"
      "take (length (arrays st1)) (arrays st2) = arrays st1"
      "getOrderedTransactionsCache m2 = getOrderedTransactionsCache m1"
      "objects st2 = objects st1"
    by auto
  from c1(1) c2(1,6) have cc: "c' = c" by simp
  from c1(3) c2(3) have ne: "a1 \<noteq> a2" by simp
  from elements_kept [OF c2(5) c1(3)] elements_kept [OF c2(5) c1(4)] c1(5)
  have e1: "elements st2 a1 = elements st2 c" by simp
  from c2(4) cc have e2: "elements st2 a2 = elements st2 c" by simp
  have deep: "contents st2 a1 = contents st2 a2" by (simp add: contents_def e1 e2)
  have "contents st1 a1 = fst (getOrderedTransactions (valueManager st m))"
    using store_refines [OF assms(1,2)] by simp
  moreover have "contents st2 a1 = contents st1 a1"
    using elements_kept [OF c2(5) c1(3)] c2(7) by (simp add: contents_def)
  ultimately have val: "contents st2 a2 = fst (getOrderedTransactions (valueManager st m))"
    using deep by simp
  have w: "\<forall>xs. contents (writeArray a1 xs st2) c = contents st2 c \<and>
                    contents (writeArray a2 xs st2) c = contents st2 c \<and>
                    contents (writeArray a1 xs st2) a2 = contents st2 a2 \<and>
                    contents (writeArray a2 xs st2) a1 = contents st2 a1"
    using c1(2) c2(2) cc ne by (simp add: contents_writeArray)
  from deep val ne c2(1) cc c1(2) c2(2) e1 e2 w show ?thesis by auto
qed

theorem returned_arrays_are_shallow_copies_witness:
  "cacheAllocated emptyStore sampleLoaded \<and>
   (case getOrderedTransactions_store sampleLoaded emptyStore of
      (a1, m1, st1) \<Rightarrow>
        (case getOrderedTransactions_store m1 st1 of
           (a2, m2, st2) \<Rightarrow>
             a1 = 0 \<and> a2 = 2 \<and> getOrderedTransactionsCache m2 = Some 1 \<and>
             length (contents st2 a1) = 1 \<and>
             contents st2 a1 = contents st2 a2 \<and>
             contents (writeArray a1 [] st2) a2 = contents st2 a2 \<and>
             contents (writeArray a1 [] st2) 1 = contents st2 1))"
proof -
  have al: "cacheAllocated emptyStore sampleLoaded" by code_simp
  obtain a1 m1 st1 where c1: "getOrderedTransactions_store sampleLoaded emptyStore = (a1, m1, st1)"
    by (metis prod_cases3)
  obtain a2 m2 st2 where c2: "getOrderedTransactions_store m1 st1 = (a2, m2, st2)"
    by (metis prod_cases3)
  have ev: "(case getOrderedTransactions_store sampleLoaded emptyStore of
      (a1, m1, st1) \<Rightarrow>
        (case getOrderedTransactions_store m1 st1 of
           (a2, m2, st2) \<Rightarrow>
             a1 = 0 \<and> a2 = 2 \<and> getOrderedTransactionsCache m2 = Some 1 \<and>
             length (contents st2 a1) = 1))"
    by code_simp
  from returned_arrays_are_shallow_copies [OF al c1 c2] ev al c1 c2 show ?thesis by auto
qed

text \<open>
  A caller that assigns to the Full Transaction object it reaches through the first
  returned array changes what the second returned array and the cache hold, and what the
  next call of \<^verbatim>\<open>getOrderedTransactions()\<close> returns.
\<close>

theorem element_write_reaches_cache:
  "(case getOrderedTransactions_store sampleLoaded emptyStore of
      (a1, m1, st1) \<Rightarrow>
        (case getOrderedTransactions_store m1 st1 of
           (a2, m2, st2) \<Rightarrow>
             elements st2 a1 = [0] \<and>
             getOrderedTransactionsCache m2 = Some 1 \<and>
             contents st2 a2 \<noteq> [tampered] \<and>
             contents st2 1 \<noteq> [tampered] \<and>
             contents (writeObject 0 tampered st2) a2 = [tampered] \<and>
             contents (writeObject 0 tampered st2) 1 = [tampered] \<and>
             (case getOrderedTransactions_store m2 (writeObject 0 tampered st2) of
                (a3, m3, st3) \<Rightarrow> contents st3 a3 = [tampered])))"
  by code_simp

end
